theory Spec2Isabelle
  imports Complex_Main "HOL-Library.Sublist"
begin

section \<open>The rendition pipeline of MKVScanner (src/index.ts)\<close>

text \<open>
  A shallow embedding of the streaming part of \<^verbatim>\<open>src/index.ts\<close>: the progress
  aggregator \<^verbatim>\<open>videoProgress\<close>, the scheduler inside \<^verbatim>\<open>createStreaming\<close>
  (\<^verbatim>\<open>checkQueue\<close>, \<^verbatim>\<open>cleanUpAndFail\<close> and the promise handlers), the planning
  prefix of \<^verbatim>\<open>createStreaming\<close> and the manifest step at its end.

  JavaScript numbers are idealised as rationals (\<^typ>\<open>rat\<close>) or integers; strings are
  \<^typ>\<open>string\<close>, one \<^typ>\<open>char\<close> per code unit below 256.  The status line that
  \<^verbatim>\<open>videoProgress\<close> prints (\<^verbatim>\<open>lastOutput\<close>, \<^verbatim>\<open>process.stdout\<close>) is display only and
  is left out.
\<close>

subsection \<open>Character classes and the two progress patterns\<close>

definition isDigit :: "char \<Rightarrow> bool" where
  "isDigit c = (c \<in> set ''0123456789'')"

text \<open>\<^verbatim>\<open>\s\<close> of a JavaScript pattern, restricted to code units below 256.\<close>

definition isSpace :: "char \<Rightarrow> bool" where
  "isSpace c = (c \<in> set [CHR 0x09, CHR 0x0A, CHR 0x0B, CHR 0x0C, CHR 0x0D, CHR '' '', CHR 0xA0])"

text \<open>The characters that \<^verbatim>\<open>.\<close> does not match.\<close>

definition isTerm :: "char \<Rightarrow> bool" where
  "isTerm c = (c = CHR 0x0A \<or> c = CHR 0x0D)"

text \<open>
  \<^verbatim>\<open>(\d+\.\d+)\s*%\<close> at the head of a string.  Each greedy repetition is followed by
  a character outside its class, so giving back characters never helps and the
  longest run is the only candidate.
\<close>

definition percentTail :: "string \<Rightarrow> string option" where
  "percentTail s =
     (let i = takeWhile isDigit s; r = dropWhile isDigit s in
      if i = [] then None
      else (case r of
              [] \<Rightarrow> None
            | d # r' \<Rightarrow>
                (let f = takeWhile isDigit r' in
                 if d = CHR ''.'' \<and> f \<noteq> []
                    \<and> (case dropWhile isSpace (dropWhile isDigit r') of
                          [] \<Rightarrow> False | p # _ \<Rightarrow> p = CHR ''%'')
                 then Some (i @ [d] @ f) else None)))"

text \<open>
  \<^verbatim>\<open>.*,\s*(\d+\.\d+)\s*%\<close>: the greedy \<^verbatim>\<open>.*\<close> first tries to take the next
  character, and only when the rest fails is this character tried as the comma.
\<close>

fun percentAfterDots :: "string \<Rightarrow> string option" where
  "percentAfterDots [] = None"
| "percentAfterDots (c # cs) =
     (case (if isTerm c then None else percentAfterDots cs) of
        Some r \<Rightarrow> Some r
      | None \<Rightarrow> if c = CHR '','' then percentTail (dropWhile isSpace cs) else None)"

text \<open>\<^verbatim>\<open>task.+,\s*(\d+\.\d+)\s*%\<close> anchored at the head of a string.\<close>

definition percentAt :: "string \<Rightarrow> string option" where
  "percentAt s =
     (if prefix ''task'' s then
        (case drop 4 s of
           [] \<Rightarrow> None
         | c # cs \<Rightarrow> if isTerm c then None else percentAfterDots cs)
      else None)"

text \<open>\<^verbatim>\<open>RegExp.exec\<close> without flags: the match at the leftmost start that has one.\<close>

fun firstMatch :: "(string \<Rightarrow> 'a option) \<Rightarrow> string \<Rightarrow> 'a option" where
  "firstMatch m [] = m []"
| "firstMatch m (c # cs) = (case m (c # cs) of Some r \<Rightarrow> Some r | None \<Rightarrow> firstMatch m cs)"

definition percentMarker :: "string \<Rightarrow> string option" where
  "percentMarker data = firstMatch percentAt data"

text \<open>
  \<^verbatim>\<open>time=(\d\d):(\d\d):(\d\d(\.\d+)?)\<close> anchored at the head of a string; the
  result is the three groups.
\<close>

definition timeAt :: "string \<Rightarrow> (string \<times> string \<times> string) option" where
  "timeAt s =
     (let t = take 8 (drop 5 s); r = drop 13 s in
      if prefix ''time='' s \<and> length t = 8
         \<and> isDigit (t ! 0) \<and> isDigit (t ! 1) \<and> t ! 2 = CHR '':''
         \<and> isDigit (t ! 3) \<and> isDigit (t ! 4) \<and> t ! 5 = CHR '':''
         \<and> isDigit (t ! 6) \<and> isDigit (t ! 7)
      then Some (take 2 t, take 2 (drop 3 t),
                 drop 6 t @ (case r of
                               [] \<Rightarrow> []
                             | d # r' \<Rightarrow> if d = CHR ''.'' \<and> takeWhile isDigit r' \<noteq> []
                                        then d # takeWhile isDigit r' else []))
      else None)"

definition timeMarker :: "string \<Rightarrow> (string \<times> string \<times> string) option" where
  "timeMarker data = firstMatch timeAt data"

subsection \<open>Numbers and the functions of the utility packages\<close>

text \<open>
  Numbers are rationals: the rounding of doubles is not modelled.  The quotient of
  two numbers, where the divisor may be zero, is an infinity or NaN in JavaScript
  instead of an exception.
\<close>

datatype jsnum = Fin rat | PosInf | NegInf | NaN

definition jsdiv :: "rat \<Rightarrow> rat \<Rightarrow> jsnum" where
  "jsdiv a b =
     (if b \<noteq> 0 then Fin (a / b)
      else if a > 0 then PosInf else if a < 0 then NegInf else NaN)"

text \<open>
  The text handed to \<^verbatim>\<open>toNumber\<close> is a piece of the input (a capture of the first
  pattern, or the literal \<^verbatim>\<open>'0'\<close>) or the result of \<^verbatim>\<open>toString()\<close> on a number.
\<close>

datatype numtext = Lit string | Shown jsnum

text \<open>
  \<^verbatim>\<open>toInt\<close> and \<^verbatim>\<open>toNumber\<close> are imported from \<^verbatim>\<open>@tubular/util\<close>, \<^verbatim>\<open>round\<close> and
  \<^verbatim>\<open>min\<close> from \<^verbatim>\<open>@tubular/math\<close>.  The two packages are not part of the
  repository, so the four functions are parameters of everything below that calls
  them: nothing is assumed of them but that they return a number.
\<close>

record numlib =
  toInt :: "string \<Rightarrow> rat"
  toNumber :: "numtext \<Rightarrow> rat"
  round' :: "rat \<Rightarrow> rat \<Rightarrow> rat"
  min' :: "rat \<Rightarrow> rat \<Rightarrow> rat"

text \<open>
  One instance, used for the examples: \<^verbatim>\<open>toInt\<close> reads the leading decimal digits
  as \<^verbatim>\<open>parseInt\<close> does, \<^verbatim>\<open>toNumber\<close> reads \<^verbatim>\<open>digits.digits\<close>, gets a finite
  number back from its own text and answers 0 for the text of an infinity or NaN,
  \<^verbatim>\<open>round(x, m)\<close> is \<^verbatim>\<open>Math.round(x / m) * m\<close>, and \<^verbatim>\<open>min\<close> is the minimum.
\<close>

definition digitsVal :: "string \<Rightarrow> nat" where
  "digitsVal s = foldl (\<lambda>a c. 10 * a + (of_char c - 48)) 0 s"

definition readInt :: "string \<Rightarrow> rat" where
  "readInt s = of_nat (digitsVal (takeWhile isDigit s))"

fun readNumber :: "numtext \<Rightarrow> rat" where
  "readNumber (Lit s) =
     (let i = takeWhile isDigit s; f = takeWhile isDigit (drop (Suc (length i)) s) in
      of_nat (digitsVal i) + of_nat (digitsVal f) / 10 ^ length f)"
| "readNumber (Shown (Fin q)) = q"
| "readNumber (Shown _) = 0"

definition roundTo :: "rat \<Rightarrow> rat \<Rightarrow> rat" where
  "roundTo x m = of_int \<lfloor>x / m + 1 / 2\<rfloor> * m"

definition plainLib :: numlib where
  "plainLib = \<lparr>toInt = readInt, toNumber = readNumber, round' = roundTo, min' = min\<rparr>"

subsection \<open>The progress aggregator\<close>

text \<open>
  \<^verbatim>\<open>interface VideoProgress\<close>.  The four maps are created empty on the first call;
  a map that is still \<^verbatim>\<open>undefined\<close> and an empty map answer every lookup alike
  and are not told apart.  \<^verbatim>\<open>lastOutput\<close> and what is written to the terminal
  are left out.
\<close>

record VideoProgress =
  duration :: rat
  percent :: "string \<rightharpoonup> rat"
  speed :: "string \<rightharpoonup> jsnum"
  errors :: "string \<rightharpoonup> nat"
  starts :: "string \<rightharpoonup> int"
  readFromError :: bool

datatype failure = TypeError | ProcessError int | SpawnError string | RenameError string

text \<open>
  The body of \<^verbatim>\<open>videoProgress(data, stream, name, done, progress)\<close> for a
  \<^verbatim>\<open>progress\<close> object that exists; \<open>now\<close> is what \<^verbatim>\<open>Date.now()\<close> answers.
\<close>

definition videoProgressOn ::
  "numlib \<Rightarrow> string \<Rightarrow> int \<Rightarrow> string \<Rightarrow> bool \<Rightarrow> int \<Rightarrow> VideoProgress \<Rightarrow> VideoProgress" where
  "videoProgressOn L data stream n done now p =
     (if stream = 0 \<or> (data \<noteq> [] \<and> readFromError p) \<or> done then
        (let dur = (if n = ''320p'' then 180000 else duration p);
             m1 = percentMarker data;
             m2 = (case m1 of Some _ \<Rightarrow> None | None \<Rightarrow> timeMarker data);
             matched = (m1 \<noteq> None \<or> m2 \<noteq> None);
             percentStr =
               (case m1 of
                  Some s \<Rightarrow> Lit s
                | None \<Rightarrow>
                   (case m2 of
                      Some (h, m, s) \<Rightarrow>
                        Shown (jsdiv ((toInt L h * 3600 + toInt L m * 60 + toInt L s) * 100000) dur)
                    | None \<Rightarrow> Lit ''0''));
             p1 = (if done \<and> stream > 0
                   then p\<lparr>errors := (errors p)(n \<mapsto> (case errors p n of None \<Rightarrow> 0 | Some k \<Rightarrow> k) + 1)\<rparr>
                   else if done \<and> stream < 0
                   then p\<lparr>starts := (starts p)(n := None)\<rparr>
                   else p)
         in if matched \<or> (done \<and> stream \<le> 0) then
              (let pct = (if stream < 0 then - 1
                          else if done then 100
                          else min' L (round' L (toNumber L percentStr) (1 / 10)) (999 / 10));
                   lastPercent = (case percent p1 n of None \<Rightarrow> - 1 | Some v \<Rightarrow> v);
                   start = (case starts p1 n of None \<Rightarrow> now | Some t \<Rightarrow> t);
                   p2 = p1\<lparr>starts := (starts p1)(n \<mapsto> start)\<rparr>
               in if lastPercent \<noteq> pct then
                    p2\<lparr>percent := (percent p2)(n \<mapsto> pct),
                       speed := (speed p2)(n \<mapsto>
                         (if stream < 0 then Fin (- 1)
                          else jsdiv (dur * pct / 100) (of_int (now - start))))\<rparr>
                  else p2)
            else p1)
      else p)"


subsection \<open>The scheduler: tasks, queues and the promise handlers\<close>

text \<open>
  \<^verbatim>\<open>interface VideoRender\<close>.  \<^verbatim>\<open>process\<close> is the handle of the child process,
  here the number of the spawn that made it; \<^verbatim>\<open>args\<close> and \<^verbatim>\<open>promise\<close> are not
  read by any decision of the scheduler and are left out.
\<close>

record VideoRender =
  name :: string
  process :: "nat option"
  tries :: nat
  videoPath :: string

text \<open>
  A started task has its two promise handlers attached.  Which pair it is (the one of
  the parallel branch of \<^verbatim>\<open>checkQueue\<close> or the one of the redo branch) and how far
  the task has come is its phase: the process runs (\<open>Live\<close>), it has exited with
  code 0 and \<^verbatim>\<open>rename\<close> is under way (\<open>Renaming\<close>), or it was ended by a signal
  and the promise of the task will never settle (\<open>Lost\<close>).
\<close>

datatype phase = ParLive | ParRenaming | ParLost | RedoLive | RedoRenaming | RedoLost

datatype outcome = Pending | Resolved | Rejected failure

text \<open>
  The variables the closures of the \<^verbatim>\<open>new Promise\<close> executor share:
  \<^verbatim>\<open>videoQueue\<close>, \<^verbatim>\<open>redoQueue\<close>, \<^verbatim>\<open>running\<close> and \<^verbatim>\<open>progress\<close>, with the
  started tasks, the log of spawns, the handles \<^verbatim>\<open>kill()\<close> was called on, the
  callbacks \<^verbatim>\<open>cleanUpAndFail\<close> has handed to \<^verbatim>\<open>setTimeout\<close>, and the state of the
  promise itself.
\<close>

record sched =
  videoQueue :: "VideoRender list"
  redoQueue :: "VideoRender list"
  running :: int
  progress :: VideoProgress
  inflight :: "(VideoRender \<times> phase) list"
  spawned :: "string list"
  killed :: "nat list"
  timers :: "failure list"
  settled :: outcome

definition simultaneousMax :: int where
  "simultaneousMax = 6"

definition maxTries :: nat where
  "maxTries = 6"

text \<open>Settling a promise a second time has no effect.\<close>

definition resolve :: "sched \<Rightarrow> sched" where
  "resolve s = (if settled s = Pending then s\<lparr>settled := Resolved\<rparr> else s)"

definition reject :: "failure \<Rightarrow> sched \<Rightarrow> sched" where
  "reject err s = (if settled s = Pending then s\<lparr>settled := Rejected err\<rparr> else s)"

text \<open>
  \<^verbatim>\<open>startTask\<close> spawns ffmpeg and stores the handle in the task; \<open>ph\<close> records
  which handlers the caller attaches to \<^verbatim>\<open>task.promise\<close> right after.
\<close>

definition startTask :: "phase \<Rightarrow> VideoRender \<Rightarrow> sched \<Rightarrow> sched" where
  "startTask ph task s =
     s\<lparr>spawned := spawned s @ [name task],
       inflight := inflight s @ [(task\<lparr>process := Some (length (spawned s))\<rparr>, ph)]\<rparr>"

text \<open>
  \<^verbatim>\<open>checkQueue\<close>.  \<^verbatim>\<open>videoQueue.pop()\<close> takes the last element,
  \<^verbatim>\<open>redoQueue.splice(0, 1)[0]\<close> the first.  The redo branch does not count the task
  in \<^verbatim>\<open>running\<close> and does not call \<^verbatim>\<open>checkQueue\<close> again.
\<close>

function checkQueue :: "sched \<Rightarrow> sched" where
  "checkQueue s =
     (if running s < simultaneousMax \<and> videoQueue s \<noteq> [] then
        checkQueue
          (startTask ParLive (last (videoQueue s))
             (s\<lparr>videoQueue := butlast (videoQueue s), running := running s + 1\<rparr>))
      else if running s = 0 \<and> redoQueue s \<noteq> [] then
        startTask RedoLive (hd (redoQueue s)) (s\<lparr>redoQueue := tl (redoQueue s)\<rparr>)
      else if running s = 0 then resolve s
      else s)"
  by pat_completeness auto
termination
  by (relation "measure (\<lambda>s. length (videoQueue s))") (auto simp: startTask_def)

declare checkQueue.simps [simp del]

text \<open>\<^verbatim>\<open>progress.percent?.get(task.name) || 0\<close>.\<close>

definition percentDone :: "VideoProgress \<Rightarrow> string \<Rightarrow> rat" where
  "percentDone p n = (case percent p n of None \<Rightarrow> 0 | Some v \<Rightarrow> if v = 0 then 0 else v)"

text \<open>
  The test of the \<^verbatim>\<open>catch\<close> handler of the parallel branch, on the attempt count
  after \<^verbatim>\<open>++task.tries\<close>:
  \<^verbatim>\<open>++task.tries < maxTries * 3 / 4 && percentDone < 10 || task.tries < maxTries / 2\<close>.
\<close>

definition retryInParallel :: "nat \<Rightarrow> rat \<Rightarrow> bool" where
  "retryInParallel t pd =
     ((rat_of_nat t < rat_of_nat maxTries * 3 / 4 \<and> pd < 10)
      \<or> rat_of_nat t < rat_of_nat maxTries / 2)"

text \<open>
  The \<^verbatim>\<open>catch\<close> handler of the parallel branch, for a task whose promise was
  rejected.
\<close>

definition parallelCatch :: "numlib \<Rightarrow> VideoRender \<Rightarrow> int \<Rightarrow> sched \<Rightarrow> sched" where
  "parallelCatch L task now s =
     (let s1 = s\<lparr>running := running s - 1\<rparr>;
          pd = percentDone (progress s1) (name task);
          task1 = task\<lparr>process := None, tries := tries task + 1\<rparr>;
          pr = videoProgressOn L [] (- 1) (name task) True now (progress s1)
      in if retryInParallel (tries task1) pd
         then checkQueue (s1\<lparr>videoQueue := task1 # videoQueue s1, progress := pr\<rparr>)
         else checkQueue (s1\<lparr>redoQueue := redoQueue s1 @ [task1], progress := pr\<rparr>))"

text \<open>\<^verbatim>\<open>cleanUpAndFail\<close> only sets a timer; the callback runs as an event of its own.\<close>

definition cleanUpAndFail :: "failure \<Rightarrow> sched \<Rightarrow> sched" where
  "cleanUpAndFail err s = s\<lparr>timers := timers s @ [err]\<rparr>"

text \<open>
  The callback: \<^verbatim>\<open>videoQueue.push(...redoQueue)\<close> leaves \<^verbatim>\<open>redoQueue\<close> as it is,
  \<^verbatim>\<open>kill()\<close> is called on the process of every task in \<^verbatim>\<open>videoQueue\<close> that has
  one, then the promise is rejected.
\<close>

definition cleanUpCallback :: "failure \<Rightarrow> sched \<Rightarrow> sched" where
  "cleanUpCallback err s =
     (let q = videoQueue s @ redoQueue s
      in reject err (s\<lparr>videoQueue := q, killed := killed s @ List.map_filter process q\<rparr>))"

text \<open>The \<^verbatim>\<open>catch\<close> handler of the redo branch.\<close>

definition redoCatch :: "numlib \<Rightarrow> VideoRender \<Rightarrow> failure \<Rightarrow> int \<Rightarrow> sched \<Rightarrow> sched" where
  "redoCatch L task err now s =
     (let task1 = task\<lparr>tries := tries task + 1\<rparr>
      in if tries task1 < maxTries
         then checkQueue
                (s\<lparr>redoQueue := redoQueue s @ [task1\<lparr>process := None\<rparr>],
                   progress := videoProgressOn L [] (- 1) (name task) True now (progress s)\<rparr>)
         else cleanUpAndFail err s)"

subsection \<open>The events that drive the scheduler\<close>

text \<open>
  The single control flow runs one callback at a time, with the promise reactions it
  sets off.  The callbacks are:

  \<^item> \<open>Data\<close>: a chunk of output of a process; \<^verbatim>\<open>monitorProcess\<close> hands it to
    \<^verbatim>\<open>videoProgress\<close> with stream 0 (stdout) or 1 (stderr).
  \<^item> \<open>ExitOk\<close>: the exit of a process with code 0.  \<^verbatim>\<open>monitorProcess\<close> calls
    \<^verbatim>\<open>videoProgress('0', 0, name, true)\<close> and resolves; the \<^verbatim>\<open>then\<close> handler starts
    \<^verbatim>\<open>rename\<close>.
  \<^item> \<open>Failed\<close>: the exit of a process with a code other than 0, or its \<^verbatim>\<open>error\<close>
    event.  \<^verbatim>\<open>monitorProcess\<close> calls \<^verbatim>\<open>videoProgress(text, -1, name, true)\<close> and
    rejects; the \<^verbatim>\<open>catch\<close> handler follows with no other callback in between.
  \<^item> \<open>Killed\<close>: the exit of a process that a signal has ended.  The exit code is
    \<^verbatim>\<open>null\<close>, and \<^verbatim>\<open>code.toString()\<close> throws inside the listener before anything
    else happens: the promise of the task never settles and none of its handlers
    runs.  Nothing in the repository catches the exception; the callbacks of the
    other processes are kept enabled here, which also covers a program that goes
    on after it.
  \<^item> \<open>Late\<close>: an \<^verbatim>\<open>exit\<close> or \<^verbatim>\<open>error\<close> event of a process whose promise has
    settled before (Node may send both events for one process).  Only
    \<^verbatim>\<open>videoProgress(text, stream, name, true)\<close> has an effect, with stream 0 or -1.
  \<^item> \<open>Renamed\<close>: the end of \<^verbatim>\<open>rename\<close>, fulfilled (\<open>None\<close>) or rejected with an
    error.  In the parallel branch the \<^verbatim>\<open>finally\<close> callback is all that runs, and
    the promise of \<^verbatim>\<open>rename\<close> is not returned to the chain.  In the redo branch the
    \<^verbatim>\<open>finally\<close> callback calls \<^verbatim>\<open>checkQueue\<close>, and after a rejection the
    \<^verbatim>\<open>catch\<close> handler of the branch runs next.
  \<^item> \<open>Timer\<close>: the callback \<^verbatim>\<open>cleanUpAndFail\<close> has handed to \<^verbatim>\<open>setTimeout\<close>.

  A process is named by its handle.  The periodic call of the progress callback
  without arguments changes nothing and is not an event here.
\<close>

datatype event =
    Data string int string int
  | ExitOk nat int
  | Failed nat string failure int
  | Killed nat
  | Late string int string int
  | Renamed nat "failure option" int
  | Timer

definition lookupTask :: "nat \<Rightarrow> sched \<Rightarrow> (VideoRender \<times> phase) option" where
  "lookupTask h s = find (\<lambda>tp. process (fst tp) = Some h) (inflight s)"

text \<open>A settled promise runs its handler once: the entry leaves the started tasks.\<close>

definition dropTask :: "VideoRender \<times> phase \<Rightarrow> sched \<Rightarrow> sched" where
  "dropTask tp s = s\<lparr>inflight := remove1 tp (inflight s)\<rparr>"

definition rephase :: "VideoRender \<times> phase \<Rightarrow> phase \<Rightarrow> sched \<Rightarrow> sched" where
  "rephase tp ph s = s\<lparr>inflight := remove1 tp (inflight s) @ [(fst tp, ph)]\<rparr>"

definition exited :: "numlib \<Rightarrow> string \<Rightarrow> int \<Rightarrow> VideoRender \<Rightarrow> int \<Rightarrow> sched \<Rightarrow> sched" where
  "exited L d stream t now s =
     s\<lparr>progress := videoProgressOn L d stream (name t) True now (progress s)\<rparr>"

fun step :: "numlib \<Rightarrow> event \<Rightarrow> sched \<Rightarrow> sched option" where
  "step L (Data n stream d now) s =
     (if stream = 0 \<or> stream = 1
      then Some (s\<lparr>progress := videoProgressOn L d stream n False now (progress s)\<rparr>)
      else None)"
| "step L (ExitOk h now) s =
     (case lookupTask h s of
        Some (t, ParLive) \<Rightarrow> Some (rephase (t, ParLive) ParRenaming (exited L ''0'' 0 t now s))
      | Some (t, RedoLive) \<Rightarrow> Some (rephase (t, RedoLive) RedoRenaming (exited L ''0'' 0 t now s))
      | _ \<Rightarrow> None)"
| "step L (Failed h d err now) s =
     (case lookupTask h s of
        Some (t, ParLive) \<Rightarrow>
          Some (parallelCatch L t now (dropTask (t, ParLive) (exited L d (- 1) t now s)))
      | Some (t, RedoLive) \<Rightarrow>
          Some (redoCatch L t err now (dropTask (t, RedoLive) (exited L d (- 1) t now s)))
      | _ \<Rightarrow> None)"
| "step L (Killed h) s =
     (case lookupTask h s of
        Some (t, ParLive) \<Rightarrow> Some (rephase (t, ParLive) ParLost s)
      | Some (t, RedoLive) \<Rightarrow> Some (rephase (t, RedoLive) RedoLost s)
      | _ \<Rightarrow> None)"
| "step L (Late n stream d now) s =
     (if (stream = 0 \<or> stream = - 1) \<and> n \<in> set (spawned s)
      then Some (s\<lparr>progress := videoProgressOn L d stream n True now (progress s)\<rparr>)
      else None)"
| "step L (Renamed h r now) s =
     (case lookupTask h s of
        Some (t, ParRenaming) \<Rightarrow>
          Some (checkQueue ((dropTask (t, ParRenaming) s)\<lparr>running := running s - 1\<rparr>))
      | Some (t, RedoRenaming) \<Rightarrow>
          (case r of
             None \<Rightarrow> Some (checkQueue (dropTask (t, RedoRenaming) s))
           | Some err \<Rightarrow>
               Some (redoCatch L t err now (checkQueue (dropTask (t, RedoRenaming) s))))
      | _ \<Rightarrow> None)"
| "step L Timer s =
     (case timers s of
        [] \<Rightarrow> None
      | err # rest \<Rightarrow> Some (cleanUpCallback err (s\<lparr>timers := rest\<rparr>)))"

text \<open>
  The state in which the executor of the promise calls \<^verbatim>\<open>checkQueue\<close> for the first
  time, for the queue \<open>q\<close> that \<^verbatim>\<open>createStreaming\<close> has built and the duration
  \<open>dur\<close> of the asset.
\<close>

definition initSched :: "VideoRender list \<Rightarrow> rat \<Rightarrow> sched" where
  "initSched q dur =
     \<lparr>videoQueue = q, redoQueue = [], running = 0,
      progress = \<lparr>duration = dur, percent = Map.empty, speed = Map.empty,
                  errors = Map.empty, starts = Map.empty, readFromError = False\<rparr>,
      inflight = [], spawned = [], killed = [], timers = [], settled = Pending\<rparr>"

inductive reachable :: "numlib \<Rightarrow> VideoRender list \<Rightarrow> rat \<Rightarrow> sched \<Rightarrow> bool" for L q dur where
  reach_start: "reachable L q dur (checkQueue (initSched q dur))"
| reach_step: "reachable L q dur s \<Longrightarrow> step L e s = Some s' \<Longrightarrow> reachable L q dur s'"

text \<open>A task with a live external process.\<close>

definition isLive :: "VideoRender \<times> phase \<Rightarrow> bool" where
  "isLive tp = (snd tp = ParLive \<or> snd tp = RedoLive)"

definition liveCount :: "sched \<Rightarrow> nat" where
  "liveCount s = length (filter isLive (inflight s))"

definition isPar :: "VideoRender \<times> phase \<Rightarrow> bool" where
  "isPar tp = (snd tp = ParLive \<or> snd tp = ParRenaming \<or> snd tp = ParLost)"

definition isRedo :: "VideoRender \<times> phase \<Rightarrow> bool" where
  "isRedo tp = (snd tp = RedoLive \<or> snd tp = RedoRenaming \<or> snd tp = RedoLost)"

definition parCount :: "sched \<Rightarrow> nat" where
  "parCount s = length (filter isPar (inflight s))"

definition redoCount :: "sched \<Rightarrow> nat" where
  "redoCount s = length (filter isRedo (inflight s))"

text \<open>
  A task that has come to the redo queue has failed five times: the redo attempt is
  its last one.
\<close>

definition lastTry :: "VideoRender \<Rightarrow> bool" where
  "lastTry t = (maxTries \<le> tries t + 1)"

text \<open>What holds whenever \<^verbatim>\<open>checkQueue\<close> is called.\<close>

definition entry :: "sched \<Rightarrow> bool" where
  "entry s =
     (running s = int (parCount s) \<and> running s \<le> simultaneousMax
      \<and> redoCount s = 0
      \<and> list_all lastTry (redoQueue s))"

text \<open>What holds between two callbacks.\<close>

definition inv :: "sched \<Rightarrow> bool" where
  "inv s =
     (running s = int (parCount s) \<and> running s \<le> simultaneousMax
      \<and> redoCount s \<le> 1
      \<and> (redoCount s = 0 \<or> running s = 0)
      \<and> list_all lastTry (redoQueue s)
      \<and> list_all (\<lambda>tp. isRedo tp \<longrightarrow> lastTry (fst tp)) (inflight s))"

text \<open>A run of callbacks, in the order the event loop takes them.\<close>

fun steps :: "numlib \<Rightarrow> event list \<Rightarrow> sched \<Rightarrow> sched option" where
  "steps L [] s = Some s"
| "steps L (e # es) s = (case step L e s of None \<Rightarrow> None | Some s' \<Rightarrow> steps L es s')"

subsection \<open>The planning part of \<^verbatim>\<open>createStreaming\<close>\<close>

text \<open>
  The tracks as \<^verbatim>\<open>createStreaming\<close> reads them.  \<^verbatim>\<open>pixel_dimensions\<close> is the text
  \<^verbatim>\<open>WxH\<close> in the source and is split and converted there; the pair of numbers stands
  for it here.  Of an audio track only the codec and the channel count are read.
\<close>

record VideoTrack =
  pixel_dimensions :: "int \<times> int"
  display_dimensions :: "int \<times> int"
  stereo_mode :: "int option"

record AudioTrack =
  codec :: string
  audio_channels :: int

text \<open>
  The arguments of \<^verbatim>\<open>createStreaming\<close>.  \<open>mpdRoot\<close>, \<open>busyPath\<close> (the file
  \<^verbatim>\<open>busy.txt\<close> in the directory of \<open>mpdRoot\<close>) and \<open>starTrekTOS\<close> (whether the
  path contains \<^verbatim>\<open>Star Trek - 01 - The Original Series\<close>) are what the source computes
  from \<^verbatim>\<open>path\<close>, and so is \<open>errorReportPath\<close>; the subtitle tracks only shape the
  arguments of ffmpeg.
\<close>

record StreamingArgs =
  mpdRoot :: string
  busyPath :: string
  errorReportPath :: string
  starTrekTOS :: bool
  audios :: "AudioTrack list"
  video :: "VideoTrack option"
  isMovie :: bool
  isExtra :: bool

definition resolutions :: "(rat \<times> int) list" where
  "resolutions = [(1920, 1080), (1280, 720), (85333 / 100, 480), (640, 360), (569, 320)]"

definition mpdPath :: "StreamingArgs \<Rightarrow> string" where
  "mpdPath a = mpdRoot a @ ''.mpd''"

definition avPath :: "StreamingArgs \<Rightarrow> string" where
  "avPath a = mpdRoot a @ ''.av.webm''"

definition mobilePath :: "StreamingArgs \<Rightarrow> string" where
  "mobilePath a = mpdRoot a @ ''.mobile.mp4''"

definition samplePath :: "StreamingArgs \<Rightarrow> string" where
  "samplePath a = mpdRoot a @ ''.sample.mp4''"

text \<open>
  \<^verbatim>\<open>existsAsync\<close> on a directory tree given by the set of its paths; an
  \<^verbatim>\<open>lstat\<close> error other than \<^verbatim>\<open>ENOENT\<close> is not modelled.
\<close>

definition existsAsync :: "string set \<Rightarrow> string \<Rightarrow> bool" where
  "existsAsync fs p = (p \<in> fs)"

definition hasDesktopVideo :: "StreamingArgs \<Rightarrow> string set \<Rightarrow> bool" where
  "hasDesktopVideo a fs = (existsAsync fs (mpdPath a) \<or> existsAsync fs (avPath a))"

definition hasMobile :: "StreamingArgs \<Rightarrow> string set \<Rightarrow> bool" where
  "hasMobile a fs = existsAsync fs (mobilePath a)"

definition hasSample :: "StreamingArgs \<Rightarrow> string set \<Rightarrow> bool" where
  "hasSample a fs = existsAsync fs (samplePath a)"

text \<open>\<^verbatim>\<open>(video?.properties.pixel_dimensions || '1x1')\<close>, split and converted.\<close>

definition pixels :: "StreamingArgs \<Rightarrow> int \<times> int" where
  "pixels a = (case video a of None \<Rightarrow> (1, 1) | Some v \<Rightarrow> pixel_dimensions v)"

definition shouldSkipVideo :: "StreamingArgs \<Rightarrow> string set \<Rightarrow> rat \<Rightarrow> int \<Rightarrow> bool" where
  "shouldSkipVideo a fs streamW streamH =
     ((\<not> isMovie a \<and> streamH = 1080) \<or> (isExtra a \<and> streamH > 480)
      \<or> (streamW > of_int (fst (pixels a)) * (5 / 4) \<and> of_int streamH > (of_int (snd (pixels a)) * (5 / 4) :: rat))
      \<or> (hasDesktopVideo a fs \<and> streamH \<ge> 480) \<or> (hasMobile a fs \<and> streamH = 360)
      \<or> (hasSample a fs \<and> streamH = 320))"

definition videoCount :: "StreamingArgs \<Rightarrow> string set \<Rightarrow> int" where
  "videoCount a fs =
     (if video a = None then 0
      else foldl (\<lambda>total r. total + (if shouldSkipVideo a fs (fst r) (snd r) then 0 else 1)) 0 resolutions)"

definition groupedVideoCount :: "StreamingArgs \<Rightarrow> string set \<Rightarrow> int" where
  "groupedVideoCount a fs =
     videoCount a fs - (if hasMobile a fs \<or> video a = None then 0 else 1)
                     - (if hasSample a fs \<or> video a = None then 0 else 1)"

text \<open>
  The audio track whose channel count is read: \<^verbatim>\<open>audios[0]\<close>, or for the one
  series the first stereo AAC track, else the first stereo track, else \<^verbatim>\<open>audios[0]\<close>.
  \<^verbatim>\<open>undefined\<close> is \<open>None\<close>.
\<close>

definition primaryAudio :: "StreamingArgs \<Rightarrow> AudioTrack option" where
  "primaryAudio a =
     (let first = (case audios a of [] \<Rightarrow> None | x # _ \<Rightarrow> Some x) in
      if starTrekTOS a then
        (case find (\<lambda>t. codec t = ''AAC'' \<and> audio_channels t \<le> 2) (audios a) of
           Some t \<Rightarrow> Some t
         | None \<Rightarrow> (case find (\<lambda>t. audio_channels t \<le> 2) (audios a) of
                      Some t \<Rightarrow> Some t
                    | None \<Rightarrow> first))
      else first)"

definition audioIndex :: "StreamingArgs \<Rightarrow> int" where
  "audioIndex a = (if audios a = [] then - 1 else 0)"

text \<open>
  \<^verbatim>\<open>createStreaming\<close> from its first line to the line that reads
  \<^verbatim>\<open>audio.properties.audio_channels\<close>: it returns \<^verbatim>\<open>false\<close>, or throws, or goes
  on with the two flags \<^verbatim>\<open>mono\<close> and \<^verbatim>\<open>surround\<close>.  No statement of this part
  spawns a process or builds a task.
\<close>

datatype prefix = ReturnsFalse | Throws failure | Continues bool bool

text \<open>\<^verbatim>\<open>video?.properties.stereo_mode\<close> as a condition: present and not 0.\<close>

definition stereoscopic :: "StreamingArgs \<Rightarrow> bool" where
  "stereoscopic a =
     (case video a of
        None \<Rightarrow> False
      | Some v \<Rightarrow> (case stereo_mode v of None \<Rightarrow> False | Some m \<Rightarrow> m \<noteq> 0))"

definition createStreamingPrefix :: "StreamingArgs \<Rightarrow> string set \<Rightarrow> prefix" where
  "createStreamingPrefix a fs =
     (if snd (pixels a) > 1100 \<or> stereoscopic a \<or> existsAsync fs (busyPath a)
      then ReturnsFalse
      else if hasDesktopVideo a fs \<and> hasMobile a fs \<and> hasSample a fs then ReturnsFalse
      else (case primaryAudio a of
              None \<Rightarrow> Throws TypeError
            | Some audio \<Rightarrow> Continues (audio_channels audio = 1) (audio_channels audio > 3)))"

text \<open>The audio stream that is generated before the video tasks, if any.\<close>

definition audioPath :: "StreamingArgs \<Rightarrow> string set \<Rightarrow> string option" where
  "audioPath a fs =
     (if audioIndex a \<ge> 0 \<and> groupedVideoCount a fs \<noteq> 1 \<and> \<not> hasDesktopVideo a fs
      then Some (mpdRoot a @ ''.'' @ (if groupedVideoCount a fs = 0 then ''av'' else ''audio'') @ ''.webm'')
      else None)"

text \<open>Decimal text of a number, for \<^verbatim>\<open>resolution.h + 'p'\<close> and \<^verbatim>\<open>'v' + resolution.h\<close>.\<close>

fun showNat :: "nat \<Rightarrow> string" where
  "showNat n = (if n < 10 then [char_of (48 + n)] else showNat (n div 10) @ [char_of (48 + n mod 10)])"

declare showNat.simps [simp del]

definition videoPathOf :: "StreamingArgs \<Rightarrow> string set \<Rightarrow> int \<Rightarrow> string" where
  "videoPathOf a fs h =
     (let small = (h < 480);
          ext = (if small then (if h = 320 then ''sample.mp4'' else ''mobile.mp4'') else ''webm'')
      in mpdRoot a
         @ (if small then []
            else ''.'' @ (if groupedVideoCount a fs = 1 then ''av'' else ''v'' @ showNat (nat h)))
         @ ''.'' @ ext)"

text \<open>
  The loop over \<^verbatim>\<open>resolutions\<close> that fills \<^verbatim>\<open>videoQueue\<close> and
  \<^verbatim>\<open>dashVideos\<close>; it runs only when there is a video track.  \<open>fs\<close> is the
  directory tree on which the skip rule was decided, \<open>fs'\<close> the one the loop itself
  sees (the audio stream may have been written in between).
\<close>

definition planned :: "StreamingArgs \<Rightarrow> string set \<Rightarrow> (rat \<times> int) list" where
  "planned a fs =
     (if video a = None then []
      else filter (\<lambda>r. \<not> shouldSkipVideo a fs (fst r) (snd r)) resolutions)"

definition dashVideos :: "StreamingArgs \<Rightarrow> string set \<Rightarrow> string list" where
  "dashVideos a fs = map (\<lambda>r. videoPathOf a fs (snd r)) (filter (\<lambda>r. \<not> snd r < 480) (planned a fs))"

definition buildQueue :: "StreamingArgs \<Rightarrow> string set \<Rightarrow> string set \<Rightarrow> VideoRender list" where
  "buildQueue a fs fs' =
     map (\<lambda>r. \<lparr>name = showNat (nat (snd r)) @ ''p'', process = None, tries = 0,
                videoPath = videoPathOf a fs (snd r)\<rparr>)
         (filter (\<lambda>r. \<not> existsAsync fs' (videoPathOf a fs (snd r))) (planned a fs))"

text \<open>The test before the manifest step: \<^verbatim>\<open>groupedVideoCount > 1\<close>.\<close>

definition needsManifest :: "StreamingArgs \<Rightarrow> string set \<Rightarrow> bool" where
  "needsManifest a fs = (groupedVideoCount a fs > 1)"

text \<open>
  The directory tree when the loop over \<^verbatim>\<open>resolutions\<close> runs: the audio stream, if
  one was due, exists by then (it was there before or has just been generated; a
  failure to generate it ends the run).
\<close>

definition withAudio :: "StreamingArgs \<Rightarrow> string set \<Rightarrow> string set" where
  "withAudio a fs = (case audioPath a fs of None \<Rightarrow> fs | Some p \<Rightarrow> insert p fs)"

text \<open>
  The output files for which a run of \<^verbatim>\<open>createStreaming\<close> spawns ffmpeg at least
  once, in the order of the three places that spawn: the audio stream (inside
  \<^verbatim>\<open>if (!await existsAsync(audioPath))\<close>), every task of the queue
  (\<^verbatim>\<open>startTask\<close>), and the manifest (inside \<^verbatim>\<open>if (groupedVideoCount > 1)\<close>).  A
  run that ends in the first part spawns nothing.
\<close>

definition spawnTargets :: "StreamingArgs \<Rightarrow> string set \<Rightarrow> string list" where
  "spawnTargets a fs =
     (case createStreamingPrefix a fs of
        Continues m sr \<Rightarrow>
          (case audioPath a fs of
             None \<Rightarrow> []
           | Some p \<Rightarrow> if existsAsync fs p then [] else [p])
          @ map videoPath (buildQueue a fs (withAudio a fs))
          @ (if needsManifest a fs then [mpdPath a] else [])
      | _ \<Rightarrow> [])"

text \<open>
  The directory tree after a run in which every process that was spawned has ended
  with success: each target has been renamed from its temporary name to its own.
\<close>

definition afterSuccess :: "StreamingArgs \<Rightarrow> string set \<Rightarrow> string set" where
  "afterSuccess a fs = fs \<union> set (spawnTargets a fs)"

subsection \<open>The manifest step\<close>

text \<open>
  \<^verbatim>\<open>tmp(file)\<close>: \<^verbatim>\<open>file.replace(/(\.\w+)$/, '.tmp$1')\<close>.  The first dot that is
  followed by word characters up to the end of the string gets \<^verbatim>\<open>.tmp\<close> before it.
\<close>

definition isWord :: "char \<Rightarrow> bool" where
  "isWord c = (isDigit c \<or> c = CHR ''_''
     \<or> c \<in> set ''abcdefghijklmnopqrstuvwxyzABCDEFGHIJKLMNOPQRSTUVWXYZ'')"

fun tmp :: "string \<Rightarrow> string" where
  "tmp [] = []"
| "tmp (c # cs) =
     (if c = CHR ''.'' \<and> cs \<noteq> [] \<and> list_all isWord cs then ''.tmp'' @ c # cs else c # tmp cs)"

text \<open>
  The pattern \<^verbatim>\<open>/(<BaseURL>).*[/\\](.*?)(<\/BaseURL>)/g\<close>.  \<open>lazyClose\<close> is
  \<^verbatim>\<open>(.*?)(<\/BaseURL>)\<close> at the head of a string: the lazy repetition first tries to
  stop, and takes one more character (never a line terminator) only when the closing
  tag does not follow.  It answers the second group and what is left after the match.
  \<open>greedyPath\<close> is \<^verbatim>\<open>.*[/\\](.*?)(<\/BaseURL>)\<close>: the greedy repetition first
  tries to take the next character, and only when the rest fails is this character
  tried as the separator.
\<close>

definition openTag :: string where
  "openTag = ''<BaseURL>''"

definition closeTag :: string where
  "closeTag = ''</BaseURL>''"

definition isSep :: "char \<Rightarrow> bool" where
  "isSep c = (c = CHR ''/'' \<or> c = CHR 0x5C)"

fun lazyClose :: "string \<Rightarrow> (string \<times> string) option" where
  "lazyClose [] = None"
| "lazyClose (c # cs) =
     (if prefix closeTag (c # cs) then Some ([], drop (length closeTag) (c # cs))
      else if isTerm c then None
      else (case lazyClose cs of None \<Rightarrow> None | Some (g, r) \<Rightarrow> Some (c # g, r)))"

fun greedyPath :: "string \<Rightarrow> (string \<times> string) option" where
  "greedyPath [] = None"
| "greedyPath (c # cs) =
     (case (if isTerm c then None else greedyPath cs) of
        Some m \<Rightarrow> Some m
      | None \<Rightarrow> if isSep c then lazyClose cs else None)"

text \<open>
  The callback of \<^verbatim>\<open>replace\<close>:
  \<^verbatim>\<open>if (/[&<>]/.test(path) && !/&[#a-z0-9]+;/.test(path)) path = htmlEscape($2)\<close>.
  \<^verbatim>\<open>htmlEscape\<close> is imported from \<^verbatim>\<open>@tubular/util\<close>, which is not part of the
  repository; it is the parameter \<open>esc\<close>.
\<close>

definition isEntityChar :: "char \<Rightarrow> bool" where
  "isEntityChar c = (c = CHR ''#'' \<or> c \<in> set ''abcdefghijklmnopqrstuvwxyz'' \<or> isDigit c)"

fun hasEntity :: "string \<Rightarrow> bool" where
  "hasEntity [] = False"
| "hasEntity (c # cs) =
     ((c = CHR ''&'' \<and> takeWhile isEntityChar cs \<noteq> []
         \<and> (case dropWhile isEntityChar cs of [] \<Rightarrow> False | d # _ \<Rightarrow> d = CHR '';''))
      \<or> hasEntity cs)"

definition needsEscape :: "string \<Rightarrow> bool" where
  "needsEscape path = ((\<exists>c \<in> set path. c \<in> set ''&<>'') \<and> \<not> hasEntity path)"

definition fixReference :: "(string \<Rightarrow> string) \<Rightarrow> string \<Rightarrow> string" where
  "fixReference esc path = (if needsEscape path then esc path else path)"

text \<open>
  \<^verbatim>\<open>String.prototype.replace\<close> with the global pattern: the text is scanned from the
  left, a match is replaced by \<^verbatim>\<open>$1 + path + $3\<close> and the scan goes on behind it;
  where no match starts, the character is copied.  A match consumes at least the two
  tags, which is why the scan ends.
\<close>

lemma lazyClose_shorter: "lazyClose s = Some (g, r) \<Longrightarrow> length r < length s"
proof (induction s arbitrary: g r)
  case Nil
  then show ?case by simp
next
  case (Cons c cs)
  then show ?case
    by (auto simp: closeTag_def split: if_splits option.splits)
qed

lemma greedyPath_shorter: "greedyPath s = Some (g, r) \<Longrightarrow> length r < length s"
proof (induction s arbitrary: g r)
  case Nil
  then show ?case by simp
next
  case (Cons c cs)
  then show ?case
    by (fastforce split: if_splits option.splits dest: lazyClose_shorter)
qed

function fixManifest :: "(string \<Rightarrow> string) \<Rightarrow> string \<Rightarrow> string" where
  "fixManifest esc [] = []"
| "fixManifest esc (c # cs) =
     (if prefix openTag (c # cs) then
        (case greedyPath (drop (length openTag) (c # cs)) of
           Some (g, rest) \<Rightarrow> openTag @ fixReference esc g @ closeTag @ fixManifest esc rest
         | None \<Rightarrow> c # fixManifest esc cs)
      else c # fixManifest esc cs)"
  by pat_completeness auto
termination
proof (relation "measure (\<lambda>(e, s). length s)")
  fix esc :: "string \<Rightarrow> string" and c cs x2 x y
  assume "prefix openTag (c # cs)" "greedyPath (drop (length openTag) (c # cs)) = Some x2" "(x, y) = x2"
  then have "length y < length (drop (length openTag) (c # cs))"
    using greedyPath_shorter [of "drop (length openTag) (c # cs)" x y] by simp
  then show "((esc, y), esc, c # cs) \<in> measure (\<lambda>(e, s). length s)" by simp
qed auto

declare fixManifest.simps [simp del]

text \<open>
  The manifest step of \<^verbatim>\<open>createStreaming\<close> on a directory tree that maps paths to
  contents.  \<open>mux\<close> is what ffmpeg does: it fails with an error and a report text, or
  it ends well and has written the manifest \<open>raw\<close> to \<^verbatim>\<open>tmp(mpdPath)\<close>.  The result
  is the list of the trees after each file operation, and the error that is thrown,
  if any.  On success the operations are: ffmpeg writes the temporary file,
  \<^verbatim>\<open>rename(tmp(mpdPath), mpdPath)\<close>, and \<^verbatim>\<open>writeFile(mpdPath, ...)\<close> with the text
  read from \<^verbatim>\<open>mpdPath\<close> and rewritten.  \<^verbatim>\<open>writeFile\<close> is taken as one step, and
  \<^verbatim>\<open>rename\<close>, \<^verbatim>\<open>readFile\<close> and \<^verbatim>\<open>writeFile\<close> are taken to succeed.
\<close>

type_synonym disk = "string \<rightharpoonup> string"

definition manifestStep ::
  "(string \<Rightarrow> string) \<Rightarrow> StreamingArgs \<Rightarrow> (failure \<times> string) + string \<Rightarrow> disk
     \<Rightarrow> disk list \<times> failure option" where
  "manifestStep esc a mux d =
     (case mux of
        Inl (e, report) \<Rightarrow> ([d(errorReportPath a \<mapsto> report)], Some e)
      | Inr raw \<Rightarrow>
          (let d1 = d(tmp (mpdPath a) \<mapsto> raw);
               d2 = (d1(tmp (mpdPath a) := None))(mpdPath a \<mapsto> raw);
               d3 = d2(mpdPath a \<mapsto> fixManifest esc (the (d2 (mpdPath a))))
           in ([d1, d2, d3], None)))"

subsection \<open>Auxiliary notions for the properties below\<close>

text \<open>
  The retry rule in the words of the specification, with the two thresholds rounded
  down: \<^verbatim>\<open>floor(0.75 * maxTries)\<close> and \<^verbatim>\<open>floor(0.5 * maxTries)\<close>.
\<close>

definition specRetryInParallel :: "nat \<Rightarrow> rat \<Rightarrow> bool" where
  "specRetryInParallel t pd =
     ((pd < 10 \<and> int t < \<lfloor>(3 / 4 :: rat) * rat_of_nat maxTries\<rfloor>)
      \<or> int t < \<lfloor>(1 / 2 :: rat) * rat_of_nat maxTries\<rfloor>)"

text \<open>
  The task as the \<^verbatim>\<open>catch\<close> handler of the parallel branch puts it into a queue, and
  what else that handler and the callback of \<^verbatim>\<open>monitorProcess\<close> before it have
  changed when \<^verbatim>\<open>checkQueue\<close> is called: the task has left the started tasks,
  \<^verbatim>\<open>running\<close> is one less, and \<^verbatim>\<open>videoProgress\<close> has run twice with stream -1.
\<close>

definition requeued :: "VideoRender \<Rightarrow> VideoRender" where
  "requeued t = t\<lparr>process := None, tries := tries t + 1\<rparr>"

definition failedState :: "numlib \<Rightarrow> VideoRender \<Rightarrow> string \<Rightarrow> int \<Rightarrow> sched \<Rightarrow> sched" where
  "failedState L t d now s =
     (dropTask (t, ParLive) (exited L d (- 1) t now s))
       \<lparr>running := running s - 1,
         progress := videoProgressOn L [] (- 1) (name t) True now
                       (progress (exited L d (- 1) t now s))\<rparr>"

text \<open>No task in a queue holds a process, and \<^verbatim>\<open>kill()\<close> has not been called.\<close>

definition unstarted :: "sched \<Rightarrow> bool" where
  "unstarted s = (list_all (\<lambda>t. process t = None) (videoQueue s @ redoQueue s) \<and> killed s = [])"

text \<open>What an observer sees of a state.\<close>

definition started :: "sched \<Rightarrow> (string \<times> nat \<times> phase) list" where
  "started s = map (\<lambda>tp. (name (fst tp), tries (fst tp), snd tp)) (inflight s)"

definition waiting :: "sched \<Rightarrow> (string \<times> nat) list" where
  "waiting s = map (\<lambda>t. (name t, tries t)) (videoQueue s)"

text \<open>Concrete tasks, queues and runs for the examples.\<close>

definition exTask :: "string \<Rightarrow> nat option \<Rightarrow> nat \<Rightarrow> VideoRender" where
  "exTask n h k = \<lparr>name = n, process = h, tries = k, videoPath = ''/s/M.'' @ n\<rparr>"

definition exQueue :: "VideoRender list" where
  "exQueue = map (\<lambda>n. exTask n None 0) [''1080p'', ''720p'', ''480p'', ''360p'', ''320p'']"

definition exStart :: sched where
  "exStart = checkQueue (initSched exQueue 3600000)"

text \<open>The five tasks are under way and ffmpeg reports three minutes of an hour for 480p.\<close>

definition exReport :: event where
  "exReport = Data ''480p'' 0 ''frame= 4500 fps= 25 time=00:03:00.00 bitrate= 900kbits/s'' 7"

definition exReported :: sched where
  "exReported = the (step plainLib exReport exStart)"

text \<open>A single task and failures of it in a row, each of the process started last.\<close>

definition exOne :: "VideoRender list" where
  "exOne = [exTask ''480p'' None 0]"

definition exFails :: "nat list \<Rightarrow> event list" where
  "exFails hs = map (\<lambda>h. Failed h ''1'' (ProcessError 1) (int h)) hs"

definition exThird :: sched where
  "exThird = the (steps plainLib (exFails [0, 1, 2]) (checkQueue (initSched exOne 3600000)))"

definition exFourth :: sched where
  "exFourth = the (steps plainLib (exFails [0, 1, 2, 3]) (checkQueue (initSched exOne 3600000)))"

text \<open>
  The task fails twice, reports half of the film (stream 0 carries the line here),
  and fails a third time.
\<close>

definition exHalfway :: sched where
  "exHalfway =
     the (steps plainLib
            (exFails [0, 1] @ [Data ''480p'' 0 ''frame= 45000 time=00:30:00.00 bitrate= 900kbits/s'' 7])
            (checkQueue (initSched exOne 3600000)))"

text \<open>Eight tasks for six slots: two of them wait.\<close>

definition exEight :: "VideoRender list" where
  "exEight = map (\<lambda>n. exTask n None 0)
               [''1080p'', ''720p'', ''480p'', ''360p'', ''320p'', ''240p'', ''180p'', ''144p'']"

definition exBusy :: sched where
  "exBusy = checkQueue (initSched exEight 3600000)"

text \<open>
  Three tasks that fail five times each, one after the other; the first of them then
  runs from the redo queue to the end, but its \<^verbatim>\<open>rename\<close> is rejected; the timer of
  \<^verbatim>\<open>cleanUpAndFail\<close> fires; and the process that \<^verbatim>\<open>checkQueue\<close> has started in
  between ends well.
\<close>

definition exThree :: "VideoRender list" where
  "exThree = map (\<lambda>n. exTask n None 0) [''480p'', ''360p'', ''320p'']"

definition exAbortRun :: "event list" where
  "exAbortRun =
     exFails [0, 3, 4, 5, 6, 1, 7, 8, 9, 10, 2, 11, 12, 13, 14]
     @ [ExitOk 15 20, Renamed 15 (Some (RenameError ''ENOENT'')) 21, Timer]"

definition exAfterAbort :: "event list" where
  "exAfterAbort = [ExitOk 16 30, Renamed 16 None 31]"

text \<open>The same for a single task: its \<^verbatim>\<open>rename\<close> from the redo branch is rejected.\<close>

definition exLoneRun :: "event list" where
  "exLoneRun =
     exFails [0, 1, 2, 3, 4]
     @ [ExitOk 5 20, Renamed 5 (Some (RenameError ''ENOENT'')) 21, Timer]"

text \<open>
  A film of 1920 by 1080 pixels with one surround track; a directory that holds the
  manifest and the large streams; one that holds the stream files of 1080p and 720p
  only; and one that holds the manifest, the mobile video and the sample video.
\<close>

definition exArgs :: StreamingArgs where
  "exArgs = \<lparr>mpdRoot = ''/s/M'', busyPath = ''/s/busy.txt'',
     errorReportPath = ''/s/error-report.txt'', starTrekTOS = False,
     audios = [\<lparr>codec = ''AC3'', audio_channels = 6\<rparr>],
     video = Some \<lparr>pixel_dimensions = (1920, 1080), display_dimensions = (1920, 1080), stereo_mode = None\<rparr>,
     isMovie = True, isExtra = False\<rparr>"

definition exDesktop :: "string set" where
  "exDesktop = {''/s/M.mpd'', ''/s/M.v1080.webm'', ''/s/M.v720.webm'', ''/s/M.v480.webm'', ''/s/M.audio.webm''}"

definition exStreams :: "string set" where
  "exStreams = {''/s/M.v1080.webm'', ''/s/M.v720.webm''}"

definition exComplete :: "string set" where
  "exComplete = {''/s/M.mpd'', ''/s/M.mobile.mp4'', ''/s/M.sample.mp4''}"

text \<open>The percent that is stored for a task, \<^verbatim>\<open>progress.percent.get(name) ?? -1\<close>.\<close>

definition lastPercent :: "VideoProgress \<Rightarrow> string \<Rightarrow> rat" where
  "lastPercent p n = (case percent p n of None \<Rightarrow> - 1 | Some v \<Rightarrow> v)"





text \<open>
  A manifest as a list of lines: a line without the opening tag, or an element
  \<^verbatim>\<open>BaseURL\<close> alone on its line after an indentation, whose value is a directory
  part, a separator and a base name.
\<close>

datatype mline = Other string | BaseURL string string char string

fun occurs :: "string \<Rightarrow> string \<Rightarrow> bool" where
  "occurs lit [] = (lit = [])"
| "occurs lit (c # cs) = (prefix lit (c # cs) \<or> occurs lit cs)"

fun render :: "mline \<Rightarrow> string" where
  "render (Other l) = l"
| "render (BaseURL ind dir sep base) = ind @ openTag @ dir @ sep # base @ closeTag"

fun rewritten :: "(string \<Rightarrow> string) \<Rightarrow> mline \<Rightarrow> string" where
  "rewritten esc (Other l) = l"
| "rewritten esc (BaseURL ind dir sep base) =
     ind @ openTag
     @ (if (\<exists>c \<in> set base. c \<in> set ''&<>'') \<and> \<not> hasEntity base then esc base else base)
     @ closeTag"

fun wellFormed :: "mline \<Rightarrow> bool" where
  "wellFormed (Other l) = (\<not> occurs openTag l \<and> \<not> (\<exists>c \<in> set l. isTerm c))"
| "wellFormed (BaseURL ind dir sep base) =
     (CHR ''<'' \<notin> set ind \<and> isSep sep
      \<and> \<not> (\<exists>c \<in> set (ind @ dir @ base). isTerm c) \<and> \<not> (\<exists>c \<in> set base. isSep c))"

definition joinLines :: "string list \<Rightarrow> string" where
  "joinLines ls = concat (map (\<lambda>l. l @ [CHR 0x0A]) ls)"

text \<open>An escape function for the examples, and two manifests.\<close>

definition plainEscape :: "string \<Rightarrow> string" where
  "plainEscape s = concat (map (\<lambda>c. if c = CHR ''&'' then ''&amp;'' else if c = CHR ''<'' then ''&lt;''
                                    else if c = CHR ''>'' then ''&gt;'' else [c]) s)"

definition exRaw :: string where
  "exRaw = ''<BaseURL>/s/M.v480.webm</BaseURL>''"

definition exManifest :: "mline list" where
  "exManifest =
     [Other ''<Representation id=\"0\">'',
      BaseURL ''  '' ''/mnt/streaming/Films'' (CHR ''/'') ''Tom & Jerry.v480.webm'',
      Other ''</Representation>'',
      BaseURL ''  '' ''S:'' (CHR 0x5C) ''Tom &amp; Jerry.audio.webm'']"

section \<open>Properties of the scheduler\<close>

lemma par_xor_redo: "isRedo tp = (\<not> isPar tp)"
  by (cases "snd tp") (auto simp: isPar_def isRedo_def)

lemma length_par_redo: "length xs = length (filter isPar xs) + length (filter isRedo xs)"
  by (induction xs) (auto simp: par_xor_redo)

lemma inflight_counts: "length (inflight s) = parCount s + redoCount s"
  using length_par_redo [of "inflight s"] by (simp add: parCount_def redoCount_def)

lemma count_pos: "tp \<in> set xs \<Longrightarrow> P tp \<Longrightarrow> 0 < length (filter P xs)"
  by (induction xs) auto

lemma count_zero: "length (filter P xs) = 0 \<Longrightarrow> list_all (\<lambda>x. P x \<longrightarrow> Q x) xs"
  by (induction xs) (auto split: if_splits)

lemma count_remove1:
  "tp \<in> set xs \<Longrightarrow> length (filter P (remove1 tp xs)) = length (filter P xs) - (if P tp then 1 else 0)"
proof (induction xs)
  case Nil
  then show ?case by simp
next
  case (Cons a xs)
  show ?case
  proof (cases "tp = a")
    case True
    then show ?thesis by simp
  next
    case False
    then have m: "tp \<in> set xs" using Cons.prems by simp
    show ?thesis using False Cons.IH [OF m] count_pos [of tp xs P, OF m] by auto
  qed
qed

lemma list_all_remove1: "list_all P xs \<Longrightarrow> list_all P (remove1 x xs)"
  by (induction xs) auto

lemma counts_startTask [simp]:
  "parCount (startTask ph t s) = parCount s + (if isPar (t, ph) then 1 else 0)"
  "redoCount (startTask ph t s) = redoCount s + (if isRedo (t, ph) then 1 else 0)"
  by (auto simp: parCount_def redoCount_def startTask_def isPar_def isRedo_def)

lemma fields_startTask [simp]:
  "running (startTask ph t s) = running s" "videoQueue (startTask ph t s) = videoQueue s"
  "redoQueue (startTask ph t s) = redoQueue s" "timers (startTask ph t s) = timers s"
  "settled (startTask ph t s) = settled s" "progress (startTask ph t s) = progress s"
  "killed (startTask ph t s) = killed s"
  "spawned (startTask ph t s) = spawned s @ [name t]"
  by (simp_all add: startTask_def)

lemma counts_upd [simp]:
  "parCount (s\<lparr>videoQueue := q\<rparr>) = parCount s" "redoCount (s\<lparr>videoQueue := q\<rparr>) = redoCount s"
  "parCount (s\<lparr>redoQueue := q\<rparr>) = parCount s" "redoCount (s\<lparr>redoQueue := q\<rparr>) = redoCount s"
  "parCount (s\<lparr>running := r\<rparr>) = parCount s" "redoCount (s\<lparr>running := r\<rparr>) = redoCount s"
  "parCount (s\<lparr>progress := p\<rparr>) = parCount s" "redoCount (s\<lparr>progress := p\<rparr>) = redoCount s"
  "parCount (s\<lparr>timers := ts\<rparr>) = parCount s" "redoCount (s\<lparr>timers := ts\<rparr>) = redoCount s"
  "parCount (s\<lparr>killed := k\<rparr>) = parCount s" "redoCount (s\<lparr>killed := k\<rparr>) = redoCount s"
  "parCount (s\<lparr>settled := st\<rparr>) = parCount s" "redoCount (s\<lparr>settled := st\<rparr>) = redoCount s"
  by (simp_all add: parCount_def redoCount_def)

lemma checkQueue_par:
  "running s < simultaneousMax \<Longrightarrow> videoQueue s \<noteq> [] \<Longrightarrow>
   checkQueue s = checkQueue (startTask ParLive (last (videoQueue s))
     (s\<lparr>videoQueue := butlast (videoQueue s), running := running s + 1\<rparr>))"
  by (subst checkQueue.simps) simp

lemma checkQueue_redo:
  "\<not> (running s < simultaneousMax \<and> videoQueue s \<noteq> []) \<Longrightarrow> running s = 0 \<Longrightarrow> redoQueue s \<noteq> [] \<Longrightarrow>
   checkQueue s = startTask RedoLive (hd (redoQueue s)) (s\<lparr>redoQueue := tl (redoQueue s)\<rparr>)"
  by (subst checkQueue.simps) auto

lemma checkQueue_resolve:
  "\<not> (running s < simultaneousMax \<and> videoQueue s \<noteq> []) \<Longrightarrow> running s = 0 \<Longrightarrow> redoQueue s = [] \<Longrightarrow>
   checkQueue s = resolve s"
  by (subst checkQueue.simps) auto

lemma checkQueue_idle:
  "\<not> (running s < simultaneousMax \<and> videoQueue s \<noteq> []) \<Longrightarrow> running s \<noteq> 0 \<Longrightarrow> checkQueue s = s"
  by (subst checkQueue.simps) auto

lemma lastTry_startTask [simp]: "lastTry (t\<lparr>process := h\<rparr>) = lastTry t"
  by (simp add: lastTry_def)

lemma entry_checkQueue: "entry s \<Longrightarrow> inv (checkQueue s)"
proof (induction s rule: checkQueue.induct)
  case (1 s)
  show ?case
  proof (cases "running s < simultaneousMax \<and> videoQueue s \<noteq> []")
    case True
    let ?s' = "startTask ParLive (last (videoQueue s)) (s\<lparr>videoQueue := butlast (videoQueue s), running := running s + 1\<rparr>)"
    have "entry ?s'"
      using "1.prems" True by (simp add: entry_def isPar_def isRedo_def)
    then have "inv (checkQueue ?s')" using "1.IH" True by blast
    then show ?thesis using True checkQueue_par [of s] by simp
  next
    case False
    note nopar = this
    have z: "list_all (\<lambda>tp. isRedo tp \<longrightarrow> lastTry (fst tp)) (inflight s)"
      using "1.prems" count_zero [of isRedo "inflight s"] by (simp add: entry_def redoCount_def)
    show ?thesis
    proof (cases "running s = 0")
      case True
      show ?thesis
      proof (cases "redoQueue s = []")
        case True
        have "checkQueue s = resolve s" using checkQueue_resolve [OF nopar \<open>running s = 0\<close> True] .
        then show ?thesis using "1.prems" z by (simp add: entry_def inv_def resolve_def)
      next
        case False
        have c: "checkQueue s = startTask RedoLive (hd (redoQueue s)) (s\<lparr>redoQueue := tl (redoQueue s)\<rparr>)"
          using checkQueue_redo [OF nopar \<open>running s = 0\<close> False] .
        have h: "lastTry (hd (redoQueue s))" "list_all lastTry (tl (redoQueue s))"
          using "1.prems" False by (cases "redoQueue s"; simp add: entry_def)+
        show ?thesis unfolding c using "1.prems" \<open>running s = 0\<close> z h
          by (simp add: entry_def inv_def isPar_def isRedo_def startTask_def
                        parCount_def redoCount_def)
      qed
    next
      case False
      have "checkQueue s = s" using checkQueue_idle [OF nopar False] .
      then show ?thesis using "1.prems" z by (simp add: entry_def inv_def)
    qed
  qed
qed

lemma lookupTask_mem: "lookupTask h s = Some tp \<Longrightarrow> tp \<in> set (inflight s)"
  by (auto simp: lookupTask_def find_Some_iff)

lemma counts_dropTask:
  assumes "tp \<in> set (inflight s)"
  shows "parCount (dropTask tp s) = parCount s - (if isPar tp then 1 else 0)"
    and "redoCount (dropTask tp s) = redoCount s - (if isRedo tp then 1 else 0)"
  using count_remove1 [OF assms] by (simp_all add: parCount_def redoCount_def dropTask_def)

lemma fields_dropTask [simp]:
  "running (dropTask tp s) = running s" "videoQueue (dropTask tp s) = videoQueue s"
  "redoQueue (dropTask tp s) = redoQueue s" "timers (dropTask tp s) = timers s"
  "settled (dropTask tp s) = settled s" "progress (dropTask tp s) = progress s"
  "killed (dropTask tp s) = killed s" "spawned (dropTask tp s) = spawned s"
  by (simp_all add: dropTask_def)

lemma fields_exited [simp]:
  "running (exited L d st t now s) = running s" "videoQueue (exited L d st t now s) = videoQueue s"
  "redoQueue (exited L d st t now s) = redoQueue s" "timers (exited L d st t now s) = timers s"
  "settled (exited L d st t now s) = settled s" "inflight (exited L d st t now s) = inflight s"
  "killed (exited L d st t now s) = killed s" "spawned (exited L d st t now s) = spawned s"
  "parCount (exited L d st t now s) = parCount s" "redoCount (exited L d st t now s) = redoCount s"
  by (simp_all add: exited_def)

lemma inv_exited [simp]: "inv (exited L d st t now s) = inv s"
  by (simp add: inv_def)

lemma inv_progress [simp]: "inv (s\<lparr>progress := p\<rparr>) = inv s"
  by (simp add: inv_def)

text \<open>What the invariant says when a parallel task, or a redo task, is under way.\<close>

lemma inv_par:
  assumes "inv s" "tp \<in> set (inflight s)" "isPar tp"
  shows "redoCount s = 0" "0 < parCount s"
proof -
  show p: "0 < parCount s" using count_pos [of tp "inflight s" isPar] assms(2,3) by (simp add: parCount_def)
  then show "redoCount s = 0" using assms(1) by (auto simp: inv_def)
qed

lemma inv_redo:
  assumes "inv s" "tp \<in> set (inflight s)" "isRedo tp"
  shows "redoCount s = 1" "parCount s = 0" "running s = 0" "lastTry (fst tp)"
proof -
  have r: "0 < redoCount s" using count_pos [of tp "inflight s" isRedo] assms(2,3) by (simp add: redoCount_def)
  then show "redoCount s = 1" using assms(1) by (auto simp: inv_def)
  show z: "running s = 0" using r assms(1) by (auto simp: inv_def)
  show "parCount s = 0" using z assms(1) by (simp add: inv_def)
  show "lastTry (fst tp)" using assms by (auto simp: inv_def list_all_iff)
qed

lemma inv_rephase:
  assumes "inv s" "(t, ph) \<in> set (inflight s)" "isPar (t, ph) = isPar (t, ph')"
  shows "inv (rephase (t, ph) ph' s)" (is "inv ?s'")
proof -
  have r: "isRedo (t, ph) = isRedo (t, ph')" using assms(3) by (simp add: par_xor_redo)
  have p: "parCount ?s' = parCount s"
    using count_remove1 [OF assms(2), of isPar] count_pos [of "(t, ph)" "inflight s" isPar] assms(2,3)
    by (auto simp: parCount_def rephase_def)
  have q: "redoCount ?s' = redoCount s"
    using count_remove1 [OF assms(2), of isRedo] count_pos [of "(t, ph)" "inflight s" isRedo] assms(2) r
    by (auto simp: redoCount_def rephase_def)
  have l: "isRedo (t, ph') \<longrightarrow> lastTry t"
    using assms(1,2) r by (auto simp: inv_def list_all_iff)
  have f: "running ?s' = running s" "redoQueue ?s' = redoQueue s"
    by (simp_all add: rephase_def)
  have g: "list_all (\<lambda>tp. isRedo tp \<longrightarrow> lastTry (fst tp)) (inflight ?s')"
    using assms(1) l list_all_remove1 [of "\<lambda>tp. isRedo tp \<longrightarrow> lastTry (fst tp)" "inflight s" "(t, ph)"]
    by (simp add: inv_def rephase_def)
  show ?thesis using assms(1) g unfolding inv_def p q f by auto
qed

lemma entry_dropped_par:
  assumes "inv s" "(t, ph) \<in> set (inflight s)" "isPar (t, ph)"
  shows "entry ((dropTask (t, ph) s)\<lparr>running := running s - 1\<rparr>)"
proof -
  have c: "parCount (dropTask (t, ph) s) = parCount s - 1" "redoCount (dropTask (t, ph) s) = redoCount s"
    using counts_dropTask [OF assms(2)] assms(3) by (simp_all add: par_xor_redo)
  show ?thesis using inv_par [OF assms] assms(1) c by (auto simp: entry_def inv_def)
qed

lemma entry_dropped_redo:
  assumes "inv s" "(t, ph) \<in> set (inflight s)" "isRedo (t, ph)"
  shows "entry (dropTask (t, ph) s)"
proof -
  have c: "parCount (dropTask (t, ph) s) = parCount s" "redoCount (dropTask (t, ph) s) = redoCount s - 1"
    using counts_dropTask [OF assms(2)] assms(3) by (simp_all add: par_xor_redo)
  show "entry (dropTask (t, ph) s)" using inv_redo [OF assms] assms(1) c by (auto simp: entry_def inv_def)
qed

lemma entry_upd [simp]:
  "entry (s\<lparr>videoQueue := q\<rparr>) = entry s" "entry (s\<lparr>progress := p\<rparr>) = entry s"
  by (simp_all add: entry_def)

text \<open>
  When a process fails, \<^verbatim>\<open>monitorProcess\<close> calls \<^verbatim>\<open>videoProgress\<close> with stream -1
  and \<^verbatim>\<open>done\<close> before it rejects the promise.  That call stores the percent -1 for
  the task (or leaves it unset), so the \<^verbatim>\<open>catch\<close> handler that follows reads a
  \<^verbatim>\<open>percentDone\<close> of -1 or 0, whatever progress the task had reported.
\<close>

lemma percent_after_failure:
  "percent (videoProgressOn L d (- 1) n True now p) n = None
   \<or> percent (videoProgressOn L d (- 1) n True now p) n = Some (- 1)"
  by (auto simp: videoProgressOn_def Let_def split: option.splits)

lemma percentDone_after_failure:
  "percentDone (progress (exited L d (- 1) t now s)) (name t) \<le> 0"
  using percent_after_failure [of L d "name t" now "progress s"]
  by (auto simp: percentDone_def exited_def)

lemma retryInParallel_iff: "retryInParallel t pd \<longleftrightarrow> (pd < 10 \<and> t \<le> 4) \<or> t < 3"
proof -
  have "rat_of_nat t < 9 / 2 \<longleftrightarrow> t \<le> 4"
  proof
    assume "rat_of_nat t < 9 / 2"
    then have "rat_of_nat t < rat_of_nat 5" by simp
    then have "t < 5" using of_nat_less_iff by blast
    then show "t \<le> 4" by simp
  next
    assume "t \<le> 4"
    then have "rat_of_nat t \<le> rat_of_nat 4" using of_nat_le_iff by blast
    then show "rat_of_nat t < 9 / 2" by simp
  qed
  moreover have "rat_of_nat t < 3 \<longleftrightarrow> t < 3"
    using of_nat_less_iff [of t 3, where 'a = rat] by simp
  ultimately show ?thesis by (auto simp: retryInParallel_def maxTries_def)
qed

text \<open>
  So the handler of a failed parallel task decides by the attempt count alone, and a
  task it sends to the redo queue has failed five times.
\<close>

lemma parallelCatch_after_failure:
  "parallelCatch L t now (dropTask tp (exited L d (- 1) t now s)) =
     (let s1 = (dropTask tp (exited L d (- 1) t now s))\<lparr>running := running s - 1\<rparr>;
          task1 = t\<lparr>process := None, tries := tries t + 1\<rparr>;
          pr = videoProgressOn L [] (- 1) (name t) True now (progress s1)
      in if tries t + 1 \<le> 4
         then checkQueue (s1\<lparr>videoQueue := task1 # videoQueue s, progress := pr\<rparr>)
         else checkQueue (s1\<lparr>redoQueue := redoQueue s @ [task1], progress := pr\<rparr>))"
proof -
  have "percentDone (progress (exited L d (- 1) t now s)) (name t) < 10"
    using percentDone_after_failure [of L d t now s] by simp
  then have "retryInParallel (tries t + 1) (percentDone (progress (exited L d (- 1) t now s)) (name t))
             \<longleftrightarrow> tries t + 1 \<le> 4"
    unfolding retryInParallel_iff by auto
  then show ?thesis by (simp add: parallelCatch_def Let_def)
qed

lemma inv_parallelCatch:
  assumes "inv s" "(t, ParLive) \<in> set (inflight s)"
  shows "inv (parallelCatch L t now (dropTask (t, ParLive) (exited L d (- 1) t now s)))"
proof -
  let ?x = "exited L d (- 1) t now s"
  have i: "inv ?x" using assms(1) by simp
  have m: "(t, ParLive) \<in> set (inflight ?x)" using assms(2) by simp
  have e: "entry ((dropTask (t, ParLive) ?x)\<lparr>running := running ?x - 1\<rparr>)"
    using entry_dropped_par [OF i m] by (simp add: isPar_def)
  show ?thesis
  proof (cases "tries t + 1 \<le> 4")
    case True
    then show ?thesis using e unfolding parallelCatch_after_failure
      by (auto simp: Let_def intro!: entry_checkQueue)
  next
    case False
    then have "lastTry (t\<lparr>process := None, tries := tries t + 1\<rparr>)"
      by (simp add: lastTry_def maxTries_def)
    then have "entry ((dropTask (t, ParLive) ?x)
                 \<lparr>running := running s - 1,
                   redoQueue := redoQueue s @ [t\<lparr>process := None, tries := tries t + 1\<rparr>]\<rparr>)"
      using e by (simp add: entry_def)
    then show ?thesis using False unfolding parallelCatch_after_failure
      by (auto simp: Let_def intro!: entry_checkQueue)
  qed
qed

text \<open>
  The redo attempt is the last one: the handler of a failed redo task has nothing
  left to requeue and asks for the abort.
\<close>

lemma redoCatch_lastTry: "lastTry t \<Longrightarrow> redoCatch L t err now s = cleanUpAndFail err s"
  by (simp add: redoCatch_def Let_def lastTry_def)

lemma inv_cleanUpAndFail [simp]: "inv (cleanUpAndFail err s) = inv s"
  by (simp add: inv_def cleanUpAndFail_def)

lemma entry_inv: "entry s \<Longrightarrow> inv s"
  using count_zero [of isRedo "inflight s"] by (simp add: entry_def inv_def redoCount_def)

lemma inv_step: "inv s \<Longrightarrow> step L e s = Some s' \<Longrightarrow> inv s'"
proof (cases e)
  case (Data n st d now)
  assume "inv s" "step L e s = Some s'"
  then show ?thesis using Data by (auto split: if_splits)
next
  case (Late n st d now)
  assume "inv s" "step L e s = Some s'"
  then show ?thesis using Late by (auto split: if_splits)
next
  case (ExitOk h now)
  assume a: "inv s" "step L e s = Some s'"
  then obtain t ph where l: "lookupTask h s = Some (t, ph)" using ExitOk
    by (cases "lookupTask h s") (auto)
  have m: "(t, ph) \<in> set (inflight (exited L ''0'' 0 t now s))" using lookupTask_mem [OF l] by simp
  have i: "inv (exited L ''0'' 0 t now s)" using a(1) by simp
  show ?thesis
  proof (cases ph)
    case ParLive
    then show ?thesis using a(2) ExitOk l inv_rephase [OF i, of t ParLive ParRenaming] m
      by (auto simp: isPar_def)
  next
    case RedoLive
    then show ?thesis using a(2) ExitOk l inv_rephase [OF i, of t RedoLive RedoRenaming] m
      by (auto simp: isPar_def)
  qed (use a(2) ExitOk l in auto)
next
  case (Killed h)
  assume a: "inv s" "step L e s = Some s'"
  then obtain t ph where l: "lookupTask h s = Some (t, ph)" using Killed
    by (cases "lookupTask h s") (auto)
  note m = lookupTask_mem [OF l]
  show ?thesis
  proof (cases ph)
    case ParLive
    then show ?thesis using a(2) Killed l inv_rephase [OF a(1), of t ParLive ParLost] m
      by (auto simp: isPar_def)
  next
    case RedoLive
    then show ?thesis using a(2) Killed l inv_rephase [OF a(1), of t RedoLive RedoLost] m
      by (auto simp: isPar_def)
  qed (use a(2) Killed l in auto)
next
  case (Failed h d err now)
  assume a: "inv s" "step L e s = Some s'"
  then obtain t ph where l: "lookupTask h s = Some (t, ph)" using Failed
    by (cases "lookupTask h s") (auto)
  note m = lookupTask_mem [OF l]
  show ?thesis
  proof (cases ph)
    case ParLive
    then show ?thesis using a Failed l m inv_parallelCatch [of s t L now d] by auto
  next
    case RedoLive
    have r: "isRedo (t, ph)" using RedoLive by (simp add: isRedo_def)
    have "lastTry t" using inv_redo(4) [OF a(1) m r] by simp
    moreover have "inv (dropTask (t, ph) (exited L d (- 1) t now s))"
      using entry_dropped_redo [of "exited L d (- 1) t now s" t ph] a(1) m r entry_inv by simp
    ultimately show ?thesis using a(2) Failed l RedoLive by (auto simp: redoCatch_lastTry)
  qed (use a(2) Failed l in auto)
next
  case (Renamed h r now)
  assume a: "inv s" "step L e s = Some s'"
  then obtain t ph where l: "lookupTask h s = Some (t, ph)" using Renamed
    by (cases "lookupTask h s") (auto)
  note m = lookupTask_mem [OF l]
  show ?thesis
  proof (cases ph)
    case ParRenaming
    then show ?thesis using a Renamed l entry_dropped_par [OF a(1), of t ph] m
      by (auto simp: isPar_def intro!: entry_checkQueue)
  next
    case RedoRenaming
    have rd: "isRedo (t, ph)" using RedoRenaming by (simp add: isRedo_def)
    have lt: "lastTry t" using inv_redo(4) [OF a(1) m rd] by simp
    have "inv (checkQueue (dropTask (t, ph) s))"
      using entry_dropped_redo [OF a(1) m rd] by (rule entry_checkQueue)
    then show ?thesis using a(2) Renamed l RedoRenaming lt
      by (cases r) (auto simp: redoCatch_lastTry)
  qed (use a(2) Renamed l in auto)
next
  case Timer
  assume a: "inv s" "step L e s = Some s'"
  then obtain err rest where t: "timers s = err # rest" using Timer by (cases "timers s") auto
  have "inv (cleanUpCallback err (s\<lparr>timers := rest\<rparr>))"
    using a(1) by (cases "settled s = Pending") (auto simp: cleanUpCallback_def Let_def reject_def inv_def)
  then show ?thesis using a(2) t Timer by simp
qed

lemma entry_init: "entry (initSched q dur)"
  by (simp add: entry_def initSched_def parCount_def redoCount_def simultaneousMax_def)

lemma reachable_inv: "reachable L q dur s \<Longrightarrow> inv s"
  by (induction rule: reachable.induct) (auto intro: entry_checkQueue entry_init inv_step)

lemma live_le: "inv s \<Longrightarrow> int (liveCount s) \<le> simultaneousMax"
proof -
  assume i: "inv s"
  have "length (filter isLive (inflight s)) \<le> length (inflight s)" by simp
  then have l: "liveCount s \<le> parCount s + redoCount s"
    unfolding liveCount_def inflight_counts [of s] .
  show ?thesis
  proof (cases "redoCount s = 0")
    case True
    then show ?thesis using i l by (simp add: inv_def)
  next
    case False
    then have "running s = 0" "redoCount s \<le> 1" using i by (auto simp: inv_def)
    then show ?thesis using i l by (simp add: inv_def simultaneousMax_def)
  qed
qed

lemma steps_reachable: "reachable L q dur s \<Longrightarrow> steps L es s = Some s' \<Longrightarrow> reachable L q dur s'"
proof (induction es arbitrary: s)
  case Nil
  then show ?case by simp
next
  case (Cons e es)
  then show ?case by (auto split: option.splits intro: reachable.reach_step)
qed


lemma unstarted_startTask [simp]:
  "unstarted (startTask ph t s) = unstarted s"
  by (simp add: unstarted_def)

lemma unstarted_checkQueue: "unstarted s \<Longrightarrow> unstarted (checkQueue s)"
proof (induction s rule: checkQueue.induct)
  case (1 s)
  show ?case
  proof (cases "running s < simultaneousMax \<and> videoQueue s \<noteq> []")
    case True
    let ?s' = "startTask ParLive (last (videoQueue s)) (s\<lparr>videoQueue := butlast (videoQueue s), running := running s + 1\<rparr>)"
    have "list_all (\<lambda>t. process t = None) (butlast (videoQueue s))"
      using "1.prems" by (auto simp: unstarted_def list_all_iff dest: in_set_butlastD)
    then have "unstarted ?s'" using "1.prems" by (simp add: unstarted_def)
    then have "unstarted (checkQueue ?s')" using "1.IH" True by blast
    then show ?thesis using True checkQueue_par [of s] by simp
  next
    case False
    note nopar = this
    show ?thesis
    proof (cases "running s = 0")
      case True
      show ?thesis
      proof (cases "redoQueue s = []")
        case True
        show ?thesis using checkQueue_resolve [OF nopar \<open>running s = 0\<close> True] "1.prems"
          by (simp add: unstarted_def resolve_def)
      next
        case False
        have "list_all (\<lambda>t. process t = None) (tl (redoQueue s))"
          using "1.prems" False by (cases "redoQueue s") (auto simp: unstarted_def)
        then show ?thesis using checkQueue_redo [OF nopar \<open>running s = 0\<close> False] "1.prems"
          by (simp add: unstarted_def)
      qed
    next
      case False
      show ?thesis using checkQueue_idle [OF nopar False] "1.prems" by simp
    qed
  qed
qed

lemma map_filter_none: "list_all (\<lambda>t. f t = None) xs \<Longrightarrow> List.map_filter f xs = []"
  by (induction xs) (auto simp: List.map_filter_simps)

lemma unstarted_upd [simp]:
  "unstarted (s\<lparr>progress := p\<rparr>) = unstarted s" "unstarted (s\<lparr>running := r\<rparr>) = unstarted s"
  "unstarted (s\<lparr>inflight := i\<rparr>) = unstarted s" "unstarted (s\<lparr>timers := ts\<rparr>) = unstarted s"
  "unstarted (s\<lparr>settled := x\<rparr>) = unstarted s"
  by (simp_all add: unstarted_def)

lemma unstarted_parallelCatch:
  assumes "unstarted s"
  shows "unstarted (parallelCatch L t now s)"
proof -
  have a: "unstarted (s\<lparr>running := r, videoQueue := t\<lparr>process := None, tries := k\<rparr> # videoQueue s,
                         progress := p\<rparr>)" for r k p
    using assms by (simp add: unstarted_def)
  have b: "unstarted (s\<lparr>running := r, redoQueue := redoQueue s @ [t\<lparr>process := None, tries := k\<rparr>],
                         progress := p\<rparr>)" for r k p
    using assms by (simp add: unstarted_def)
  show ?thesis unfolding parallelCatch_def Let_def
    by (auto intro!: unstarted_checkQueue a b simp del: unstarted_upd)
qed

lemma unstarted_redoCatch:
  assumes "unstarted s"
  shows "unstarted (redoCatch L t err now s)"
proof -
  have a: "unstarted (s\<lparr>redoQueue := redoQueue s @ [t\<lparr>tries := k, process := None\<rparr>],
                         progress := p\<rparr>)" for k p
    using assms by (simp add: unstarted_def)
  have b: "unstarted (cleanUpAndFail err s)" using assms by (simp add: cleanUpAndFail_def)
  show ?thesis unfolding redoCatch_def Let_def
    by (auto intro!: unstarted_checkQueue a b simp del: unstarted_upd)
qed

lemma unstarted_cleanUpCallback: "unstarted s \<Longrightarrow> unstarted (cleanUpCallback err s)"
proof -
  assume u: "unstarted s"
  then have "List.map_filter process (videoQueue s @ redoQueue s) = []"
    by (intro map_filter_none) (simp add: unstarted_def)
  then show ?thesis using u by (auto simp: cleanUpCallback_def Let_def reject_def unstarted_def)
qed

lemma unstarted_step: "unstarted s \<Longrightarrow> step L e s = Some s' \<Longrightarrow> unstarted s'"
proof (cases e)
  case (Data n st d now)
  assume "unstarted s" "step L e s = Some s'"
  then show ?thesis using Data by (auto split: if_splits)
next
  case (Late n st d now)
  assume "unstarted s" "step L e s = Some s'"
  then show ?thesis using Late by (auto split: if_splits)
next
  case (ExitOk h now)
  assume "unstarted s" "step L e s = Some s'"
  then show ?thesis using ExitOk
    by (auto simp: rephase_def exited_def split: option.splits phase.splits)
next
  case (Killed h)
  assume "unstarted s" "step L e s = Some s'"
  then show ?thesis using Killed
    by (auto simp: rephase_def split: option.splits phase.splits)
next
  case (Failed h d err now)
  assume "unstarted s" "step L e s = Some s'"
  then show ?thesis using Failed
    by (auto simp: dropTask_def exited_def split: option.splits phase.splits
             intro!: unstarted_parallelCatch unstarted_redoCatch)
next
  case (Renamed h r now)
  assume "unstarted s" "step L e s = Some s'"
  then show ?thesis using Renamed
    by (auto simp: dropTask_def split: option.splits phase.splits
             intro!: unstarted_checkQueue unstarted_redoCatch)
next
  case Timer
  assume "unstarted s" "step L e s = Some s'"
  then show ?thesis using Timer
    by (auto split: list.splits intro!: unstarted_cleanUpCallback)
qed

text \<open>
  No task in a queue holds a process, so the loop of \<^verbatim>\<open>cleanUpAndFail\<close> over the
  queued tasks never reaches \<^verbatim>\<open>kill()\<close>.
\<close>

lemma never_kills:
  "reachable L q dur s \<Longrightarrow> list_all (\<lambda>t. process t = None) q \<Longrightarrow> killed s = []"
proof -
  assume r: "reachable L q dur s" and q: "list_all (\<lambda>t. process t = None) q"
  from r have "unstarted s"
  proof (induction rule: reachable.induct)
    case reach_start
    show ?case using q by (intro unstarted_checkQueue) (simp add: unstarted_def initSched_def)
  next
    case (reach_step s e s')
    then show ?case using unstarted_step by blast
  qed
  then show ?thesis by (simp add: unstarted_def)
qed

section \<open>The claims about the scheduler\<close>

text \<open>
  Claim C1, as amended.  The process of a task of the parallel phase fails (it exits
  with a code other than 0, or its \<^verbatim>\<open>error\<close> event arrives), and \<open>s\<close> is the state
  before that callback, so \<open>percentDone (progress s) (name t)\<close> is the progress the
  task has reported last.  If that progress is below 10 and the incremented attempt
  count is below \<^verbatim>\<open>maxTries * 3 / 4\<close> = 4.5 (the threshold is not rounded down), or
  the incremented attempt count is below \<^verbatim>\<open>maxTries / 2\<close> = 3, the task is put back
  at index 0 of the pending queue.  If the incremented attempt count is not below
  \<^verbatim>\<open>maxTries * 3 / 4\<close>, that is 5 or more, the task is appended to the redo queue.
  Either way \<^verbatim>\<open>checkQueue\<close> is called next.  Nothing is said here of a third or fourth
  failure of a task that has reported 10 percent or more.
\<close>

theorem failed_parallel_task:
  assumes "lookupTask h s = Some (t, ParLive)"
  shows "(retryInParallel (tries t + 1) (percentDone (progress s) (name t)) \<longrightarrow>
            step L (Failed h d err now) s =
              Some (checkQueue
                     ((failedState L t d now s)\<lparr>videoQueue := requeued t # videoQueue s\<rparr>)))
       \<and> (\<not> rat_of_nat (tries t + 1) < rat_of_nat maxTries * 3 / 4 \<longrightarrow>
            step L (Failed h d err now) s =
              Some (checkQueue
                     ((failedState L t d now s)\<lparr>redoQueue := redoQueue s @ [requeued t]\<rparr>)))
       \<and> maxTries = 6"
proof -
  let ?x = "dropTask (t, ParLive) (exited L d (- 1) t now s)"
  let ?pr = "videoProgressOn L [] (- 1) (name t) True now (progress (exited L d (- 1) t now s))"
  have st: "step L (Failed h d err now) s = Some (parallelCatch L t now ?x)"
    using assms by simp
  have a: "?x\<lparr>running := running s - 1, videoQueue := t\<lparr>process := None, tries := tries t + 1\<rparr> # videoQueue s,
              progress := ?pr\<rparr>
           = (failedState L t d now s)\<lparr>videoQueue := requeued t # videoQueue s\<rparr>"
    by (rule sched.equality) (simp_all add: failedState_def requeued_def)
  have b: "?x\<lparr>running := running s - 1, redoQueue := redoQueue s @ [t\<lparr>process := None, tries := tries t + 1\<rparr>],
              progress := ?pr\<rparr>
           = (failedState L t d now s)\<lparr>redoQueue := redoQueue s @ [requeued t]\<rparr>"
    by (rule sched.equality) (simp_all add: failedState_def requeued_def)
  have p: "parallelCatch L t now ?x =
             (if tries t + 1 \<le> 4
              then checkQueue ((failedState L t d now s)\<lparr>videoQueue := requeued t # videoQueue s\<rparr>)
              else checkQueue ((failedState L t d now s)\<lparr>redoQueue := redoQueue s @ [requeued t]\<rparr>))"
    unfolding parallelCatch_after_failure Let_def using a b by simp
  have r1: "retryInParallel (tries t + 1) (percentDone (progress s) (name t)) \<Longrightarrow> tries t + 1 \<le> 4"
    unfolding retryInParallel_iff by auto
  have r2: "\<not> rat_of_nat (tries t + 1) < rat_of_nat maxTries * 3 / 4 \<Longrightarrow> \<not> tries t + 1 \<le> 4"
    using retryInParallel_iff [of "tries t + 1" 0] by (simp add: retryInParallel_def maxTries_def)
  show ?thesis using st p r1 r2 by (simp add: maxTries_def)
qed

theorem failed_parallel_task_witness:
  "percentDone (progress exReported) ''480p'' = 5
   \<and> step plainLib (Failed 2 ''1'' (ProcessError 1) 9) exReported =
       Some (checkQueue
              ((failedState plainLib (exTask ''480p'' (Some 2) 0) ''1'' 9 exReported)
                 \<lparr>videoQueue := [requeued (exTask ''480p'' (Some 2) 0)]\<rparr>))
   \<and> step plainLib (Failed 4 ''1'' (ProcessError 1) 9) exFourth =
       Some (checkQueue
              ((failedState plainLib (exTask ''480p'' (Some 4) 4) ''1'' 9 exFourth)
                 \<lparr>redoQueue := [requeued (exTask ''480p'' (Some 4) 4)]\<rparr>))"
proof -
  have l1: "lookupTask 2 exReported = Some (exTask ''480p'' (Some 2) 0, ParLive)" by code_simp
  have p1: "percentDone (progress exReported) ''480p'' = 5" by code_simp
  have q1: "videoQueue exReported = []" by code_simp
  have l2: "lookupTask 4 exFourth = Some (exTask ''480p'' (Some 4) 4, ParLive)" by code_simp
  have q2: "redoQueue exFourth = []" by code_simp
  have n1: "name (exTask ''480p'' (Some 2) 0) = ''480p''" "tries (exTask ''480p'' (Some 2) 0) = 0"
    and n2: "tries (exTask ''480p'' (Some 4) 4) = 4"
    by (simp_all add: exTask_def)
  have a1: "retryInParallel (tries (exTask ''480p'' (Some 2) 0) + 1)
              (percentDone (progress exReported) (name (exTask ''480p'' (Some 2) 0)))"
    unfolding n1 p1 by (simp add: retryInParallel_def maxTries_def)
  have a2: "\<not> rat_of_nat (tries (exTask ''480p'' (Some 4) 4) + 1) < rat_of_nat maxTries * 3 / 4"
    unfolding n2 by (simp add: maxTries_def)
  note th1 = failed_parallel_task [OF l1, of plainLib "''1''" "ProcessError 1" 9]
  note th2 = failed_parallel_task [OF l2, of plainLib "''1''" "ProcessError 1" 9]
  have s1: "step plainLib (Failed 2 ''1'' (ProcessError 1) 9) exReported =
       Some (checkQueue
              ((failedState plainLib (exTask ''480p'' (Some 2) 0) ''1'' 9 exReported)
                 \<lparr>videoQueue := requeued (exTask ''480p'' (Some 2) 0) # videoQueue exReported\<rparr>))"
    using th1 a1 by blast
  have s2: "step plainLib (Failed 4 ''1'' (ProcessError 1) 9) exFourth =
       Some (checkQueue
              ((failedState plainLib (exTask ''480p'' (Some 4) 4) ''1'' 9 exFourth)
                 \<lparr>redoQueue := redoQueue exFourth @ [requeued (exTask ''480p'' (Some 4) 4)]\<rparr>))"
    using th2 a2 by blast
  show ?thesis
    by (rule conjI [OF p1 conjI [OF s1 [unfolded q1] s2 [unfolded q2 append_Nil]]])
qed

text \<open>
  Claim C1 as it is written fails in three ways.  At the fourth failure of a task
  that has reported no progress, \<^verbatim>\<open>floor(0.75 * 6)\<close> is 4, so the claim sends the
  task to the redo queue, while the handler compares with 4.5 and starts it again in
  parallel.  At the third failure of a task that has reported 50 percent the claim
  sends the task to the redo queue, while the handler starts it again in parallel: the
  callback of \<^verbatim>\<open>monitorProcess\<close> has overwritten the percent with -1 before the
  handler reads it.  And when a signal ends the process of a task, the task comes to
  neither queue: the listener throws before the promise is settled, and \<^verbatim>\<open>running\<close>
  stays as it is.
\<close>

theorem parallel_retry_counterexample:
  "\<not> specRetryInParallel 4 (percentDone (progress exThird) ''480p'')
   \<and> started exThird = [(''480p'', 3, ParLive)]
   \<and> map_option (\<lambda>s. (started s, redoQueue s)) (step plainLib (Failed 3 ''1'' (ProcessError 1) 9) exThird)
       = Some ([(''480p'', 4, ParLive)], [])
   \<and> percentDone (progress exHalfway) ''480p'' = 50
   \<and> \<not> specRetryInParallel 3 (percentDone (progress exHalfway) ''480p'')
   \<and> started exHalfway = [(''480p'', 2, ParLive)]
   \<and> map_option (\<lambda>s. (started s, redoQueue s)) (step plainLib (Failed 2 ''1'' (ProcessError 1) 9) exHalfway)
       = Some ([(''480p'', 3, ParLive)], [])
   \<and> map_option (\<lambda>s. (started s, waiting s, redoQueue s, running s))
        (step plainLib (Killed 0) (checkQueue (initSched exOne 3600000)))
       = Some ([(''480p'', 0, ParLost)], [], [], 1)"
  by code_simp

text \<open>
  Claim C2.  In every state the scheduling loop can reach, from any queue of tasks, the
  number of tasks whose external process runs is at most the limit of 6.  Tasks of
  the parallel branch and of the redo branch are counted alike.
\<close>

theorem running_bounded:
  "reachable L q dur s \<Longrightarrow> int (liveCount s) \<le> simultaneousMax \<and> simultaneousMax = 6"
  using live_le [OF reachable_inv] by (simp add: simultaneousMax_def)

theorem running_bounded_witness:
  "reachable plainLib exEight 3600000 exBusy \<and> liveCount exBusy = 6
   \<and> int (liveCount exBusy) \<le> simultaneousMax"
proof -
  have r: "reachable plainLib exEight 3600000 exBusy"
    unfolding exBusy_def by (rule reachable.reach_start)
  have "liveCount exBusy = 6" by code_simp
  then show ?thesis using r running_bounded [OF r] by simp
qed

text \<open>
  Claim C4 at a run in which a \<^verbatim>\<open>rename\<close> of the redo branch is rejected.  Three
  tasks have failed five times each and wait in the redo queue; the first of them
  runs to the end, but its \<^verbatim>\<open>rename\<close> is rejected.  The \<^verbatim>\<open>finally\<close> callback calls
  \<^verbatim>\<open>checkQueue\<close>, which starts the second task, and then the \<^verbatim>\<open>catch\<close> handler
  finds the attempts of the first used up and calls \<^verbatim>\<open>cleanUpAndFail\<close>.  When its
  timer has fired the promise is rejected, yet \<^verbatim>\<open>kill()\<close> was called on no process,
  the process of the second task still runs and the third task waits in the pending
  queue; when the second process ends, the third task is spawned.  With a single task,
  \<^verbatim>\<open>checkQueue\<close> finds nothing left and resolves the promise before the handler asks
  for the abort, so the pipeline is not rejected.
\<close>

theorem redo_abort_leaves_work:
  "map_option (\<lambda>s. (settled s, killed s, started s, waiting s))
     (steps plainLib exAbortRun (checkQueue (initSched exThree 3600000)))
     = Some (Rejected (RenameError ''ENOENT''), [], [(''360p'', 5, RedoLive)], [(''480p'', 5)])
   \<and> map_option (\<lambda>s. (settled s, started s, drop 17 (spawned s)))
       (steps plainLib (exAbortRun @ exAfterAbort) (checkQueue (initSched exThree 3600000)))
     = Some (Rejected (RenameError ''ENOENT''), [(''480p'', 5, ParLive)], [''480p''])
   \<and> map_option (\<lambda>s. (settled s, timers s))
       (steps plainLib exLoneRun (checkQueue (initSched exOne 3600000)))
     = Some (Resolved, [])"
  by code_simp




section \<open>Properties of the planning part\<close>

lemma showNat_heights [simp]:
  "showNat 1080 = ''1080''" "showNat 720 = ''720''" "showNat 480 = ''480''"
  "showNat 360 = ''360''" "showNat 320 = ''320''"
  by code_simp+

lemma path_simps [simp]:
  "mpdPath a \<noteq> avPath a" "mobilePath a \<noteq> samplePath a"
  "mobilePath a \<noteq> mpdPath a" "mobilePath a \<noteq> avPath a"
  "samplePath a \<noteq> mpdPath a" "samplePath a \<noteq> avPath a"
  by (simp_all add: mpdPath_def avPath_def mobilePath_def samplePath_def)

lemma videoCount_planned: "videoCount a fs = int (length (planned a fs))"
  by (simp add: videoCount_def planned_def resolutions_def)

lemma has_mono:
  assumes "fs \<subseteq> fs'"
  shows "hasDesktopVideo a fs \<Longrightarrow> hasDesktopVideo a fs'" "hasMobile a fs \<Longrightarrow> hasMobile a fs'"
        "hasSample a fs \<Longrightarrow> hasSample a fs'"
  using assms by (auto simp: hasDesktopVideo_def hasMobile_def hasSample_def existsAsync_def)

lemma skip_mono: "fs \<subseteq> fs' \<Longrightarrow> shouldSkipVideo a fs w h \<Longrightarrow> shouldSkipVideo a fs' w h"
  using has_mono [of fs fs' a] by (auto simp: shouldSkipVideo_def)

lemma planned_mono: "fs \<subseteq> fs' \<Longrightarrow> set (planned a fs') \<subseteq> set (planned a fs)"
  using skip_mono [of fs fs' a] by (auto simp: planned_def)

lemma planned_cases:
  assumes "r \<in> set (planned a fs)"
  shows "video a \<noteq> None" "\<not> shouldSkipVideo a fs (fst r) (snd r)"
        "r = (1920, 1080) \<or> r = (1280, 720) \<or> r = (85333 / 100, 480) \<or> r = (640, 360) \<or> r = (569, 320)"
  using assms by (auto simp: planned_def resolutions_def split: if_splits)

lemma prefix_continues:
  "createStreamingPrefix a fs = Continues m sr \<Longrightarrow> audios a \<noteq> []"
  by (auto simp: createStreamingPrefix_def primaryAudio_def Let_def split: if_splits option.splits list.splits)

lemma afterSuccess_sup: "fs \<subseteq> afterSuccess a fs"
  by (simp add: afterSuccess_def)

lemma audio_cover:
  assumes "createStreamingPrefix a fs = Continues m sr" "audioPath a fs = Some p"
  shows "p \<in> afterSuccess a fs"
  using assms by (simp add: afterSuccess_def spawnTargets_def existsAsync_def)

lemma withAudio_cover:
  assumes "createStreamingPrefix a fs = Continues m sr"
  shows "withAudio a fs \<subseteq> afterSuccess a fs"
  using audio_cover [OF assms] afterSuccess_sup [of fs a]
  by (auto simp: withAudio_def split: option.splits)

lemma planned_cover:
  assumes c: "createStreamingPrefix a fs = Continues m sr" and r: "r \<in> set (planned a fs)"
  shows "videoPathOf a fs (snd r) \<in> afterSuccess a fs"
proof (cases "existsAsync (withAudio a fs) (videoPathOf a fs (snd r))")
  case True
  then show ?thesis using withAudio_cover [OF c] by (auto simp: existsAsync_def)
next
  case False
  then have "videoPathOf a fs (snd r) \<in> set (map videoPath (buildQueue a fs (withAudio a fs)))"
    using r by (force simp: buildQueue_def)
  then show ?thesis using c by (simp add: afterSuccess_def spawnTargets_def)
qed

lemma manifest_cover:
  assumes "createStreamingPrefix a fs = Continues m sr" "needsManifest a fs"
  shows "mpdPath a \<in> afterSuccess a fs"
  using assms by (simp add: afterSuccess_def spawnTargets_def)

lemma small_paths:
  "videoPathOf a fs 360 = mobilePath a" "videoPathOf a fs 320 = samplePath a"
  by (simp_all add: videoPathOf_def mobilePath_def samplePath_def)

lemma large_path_av:
  "480 \<le> h \<Longrightarrow> groupedVideoCount a fs = 1 \<Longrightarrow> videoPathOf a fs h = avPath a"
  by (simp add: videoPathOf_def avPath_def)

text \<open>A planned large rendition makes the grouped count positive.\<close>

lemma grouped_ge:
  assumes "r \<in> set (planned a fs)" "480 \<le> snd r"
  shows "1 \<le> groupedVideoCount a fs"
proof -
  note c = planned_cases [OF assms(1)]
  have d: "\<not> hasDesktopVideo a fs" using c(2) assms(2) by (auto simp: shouldSkipVideo_def)
  have big: "640 < fst r \<and> 360 < snd r \<and> 569 < fst r \<and> 320 < snd r" using c(3) assms(2) by auto
  have s360: "\<not> hasMobile a fs \<Longrightarrow> \<not> shouldSkipVideo a fs 640 360"
    using c(2) big d by (auto simp: shouldSkipVideo_def)
  have s320: "\<not> hasSample a fs \<Longrightarrow> \<not> shouldSkipVideo a fs 569 320"
    using c(2) big d by (auto simp: shouldSkipVideo_def)
  have "1 + (if hasMobile a fs then 0 else 1) + (if hasSample a fs then 0 else 1) \<le> videoCount a fs"
    using c s360 s320 assms(2) by (auto simp: videoCount_def resolutions_def)
  then show ?thesis using c(1) by (auto simp: groupedVideoCount_def split: if_splits)
qed

text \<open>Without a planned large rendition the grouped count is not positive.\<close>

lemma grouped_le:
  assumes "\<forall>r \<in> set (planned a fs). \<not> 480 \<le> snd r"
  shows "groupedVideoCount a fs \<le> 0"
proof (cases "video a = None")
  case True
  then show ?thesis by (simp add: groupedVideoCount_def videoCount_def)
next
  case False
  have n: "\<not> shouldSkipVideo a fs w h \<Longrightarrow> (w, h) \<in> set resolutions \<Longrightarrow> \<not> 480 \<le> h" for w h
    using assms False by (auto simp: planned_def)
  have l: "shouldSkipVideo a fs 1920 1080" "shouldSkipVideo a fs 1280 720" "shouldSkipVideo a fs (85333 / 100) 480"
    using n [of 1920 1080] n [of 1280 720] n [of "85333 / 100" 480] by (auto simp: resolutions_def)
  have m: "hasMobile a fs \<Longrightarrow> shouldSkipVideo a fs 640 360" "hasSample a fs \<Longrightarrow> shouldSkipVideo a fs 569 320"
    by (auto simp: shouldSkipVideo_def)
  show ?thesis using l m False by (auto simp: groupedVideoCount_def videoCount_def resolutions_def)
qed

lemma second_run_no_plan:
  assumes c: "createStreamingPrefix a fs = Continues m sr"
  shows "planned a (afterSuccess a fs) = []"
proof (rule ccontr)
  let ?fs' = "afterSuccess a fs"
  assume "planned a ?fs' \<noteq> []"
  then obtain r where r': "r \<in> set (planned a ?fs')" by (cases "planned a ?fs'") auto
  then have r: "r \<in> set (planned a fs)" using planned_mono [OF afterSuccess_sup] by blast
  note k = planned_cases [OF r']
  note cov = planned_cover [OF c r]
  show False
  proof (cases "480 \<le> snd r")
    case True
    have nd: "\<not> hasDesktopVideo a ?fs'" using k(2) True by (auto simp: shouldSkipVideo_def)
    have g: "1 \<le> groupedVideoCount a fs" using grouped_ge [OF r True] .
    show False
    proof (cases "groupedVideoCount a fs = 1")
      case True
      then have "avPath a \<in> ?fs'" using cov large_path_av [OF \<open>480 \<le> snd r\<close> True] by simp
      then show False using nd by (simp add: hasDesktopVideo_def existsAsync_def)
    next
      case False
      then have "needsManifest a fs" using g by (simp add: needsManifest_def)
      then have "mpdPath a \<in> ?fs'" using manifest_cover [OF c] by simp
      then show False using nd by (simp add: hasDesktopVideo_def existsAsync_def)
    qed
  next
    case False
    then consider "r = (640, 360)" | "r = (569, 320)" using k(3) by auto
    then show False
    proof cases
      case 1
      then have "hasMobile a ?fs'" using cov by (simp add: small_paths hasMobile_def existsAsync_def)
      then show False using k(2) 1 by (simp add: shouldSkipVideo_def)
    next
      case 2
      then have "hasSample a ?fs'" using cov by (simp add: small_paths hasSample_def existsAsync_def)
      then show False using k(2) 2 by (simp add: shouldSkipVideo_def)
    qed
  qed
qed

lemma grouped_no_plan:
  "planned a fs = [] \<Longrightarrow> groupedVideoCount a fs \<le> 0"
  using grouped_le [of a fs] by simp

lemma grouped_no_plan_zero:
  assumes "planned a fs = []" "groupedVideoCount a fs = 0" "video a \<noteq> None"
  shows "hasMobile a fs \<and> hasSample a fs"
  using assms by (auto simp: groupedVideoCount_def videoCount_planned split: if_splits)

lemma audio_paths_simps [simp]:
  "mpdRoot a @ ''.audio.webm'' \<noteq> mobilePath a" "mpdRoot a @ ''.audio.webm'' \<noteq> samplePath a"
  by (simp_all add: mobilePath_def samplePath_def)

text \<open>What a run with a negative grouped count writes.\<close>

lemma negative_targets:
  assumes c: "createStreamingPrefix a fs = Continues m sr" and g: "groupedVideoCount a fs < 0"
  shows "set (spawnTargets a fs) \<subseteq>
           {mpdRoot a @ ''.audio.webm''}
           \<union> (if (640, 360) \<in> set (planned a fs) then {mobilePath a} else {})
           \<union> (if (569, 320) \<in> set (planned a fs) then {samplePath a} else {})"
proof -
  have nl: "\<not> 480 \<le> snd r" if "r \<in> set (planned a fs)" for r
    using grouped_ge [OF that] g by auto
  have q: "videoPath t = mobilePath a \<and> (640, 360) \<in> set (planned a fs)
           \<or> videoPath t = samplePath a \<and> (569, 320) \<in> set (planned a fs)"
    if "t \<in> set (buildQueue a fs (withAudio a fs))" for t
  proof -
    from that obtain r where r: "r \<in> set (planned a fs)" "videoPath t = videoPathOf a fs (snd r)"
      by (auto simp: buildQueue_def)
    then have "r = (640, 360) \<or> r = (569, 320)" using planned_cases(3) [OF r(1)] nl [OF r(1)] by auto
    then show ?thesis using r by (auto simp: small_paths)
  qed
  have au: "p = mpdRoot a @ ''.audio.webm''" if "audioPath a fs = Some p" for p
    using that g by (auto simp: audioPath_def split: if_splits)
  have nm: "\<not> needsManifest a fs" using g by (simp add: needsManifest_def)
  show ?thesis using c q au nm
    by (auto simp: spawnTargets_def split: option.splits if_splits)
qed

lemma second_run_audio:
  assumes c: "createStreamingPrefix a fs = Continues m sr"
      and p: "audioPath a (afterSuccess a fs) = Some p"
  shows "p \<in> afterSuccess a fs"
proof -
  let ?fs' = "afterSuccess a fs"
  have np: "planned a ?fs' = []" using second_run_no_plan [OF c] .
  have nd': "\<not> hasDesktopVideo a ?fs'" and ai: "0 \<le> audioIndex a"
    using p by (auto simp: audioPath_def split: if_splits)
  then have nd: "\<not> hasDesktopVideo a fs" using has_mono(1) [OF afterSuccess_sup] by blast
  have nav: "avPath a \<notin> ?fs'" "mpdPath a \<notin> ?fs'"
    using nd' by (auto simp: hasDesktopVideo_def existsAsync_def)
  have g1: "groupedVideoCount a fs \<noteq> 1"
  proof
    assume g: "groupedVideoCount a fs = 1"
    have "\<not> (\<forall>r \<in> set (planned a fs). \<not> 480 \<le> snd r)"
      using grouped_le [of a fs] g by auto
    then obtain r where r: "r \<in> set (planned a fs)" "480 \<le> snd r" by blast
    then show False using planned_cover [OF c r(1)] large_path_av [OF r(2) g] nav by simp
  qed
  then have ap: "audioPath a fs = Some (mpdRoot a @ ''.'' @ (if groupedVideoCount a fs = 0 then ''av'' else ''audio'') @ ''.webm'')"
    using nd ai by (simp add: audioPath_def)
  have g0: "groupedVideoCount a fs \<noteq> 0"
  proof
    assume "groupedVideoCount a fs = 0"
    then have "audioPath a fs = Some (avPath a)" using ap by (simp add: avPath_def)
    then show False using audio_cover [OF c] nav by simp
  qed
  have gm: "\<not> 1 < groupedVideoCount a fs"
    using manifest_cover [OF c] nav by (auto simp: needsManifest_def)
  have neg: "groupedVideoCount a fs < 0" using g0 g1 gm by linarith
  have au: "mpdRoot a @ ''.audio.webm'' \<in> ?fs'" using audio_cover [OF c] ap g0 by simp
  have v: "video a \<noteq> None"
  proof
    assume "video a = None"
    then show False using g0 by (simp add: groupedVideoCount_def videoCount_def)
  qed
  have "groupedVideoCount a ?fs' \<noteq> 0"
  proof
    assume z: "groupedVideoCount a ?fs' = 0"
    then have h': "hasMobile a ?fs'" "hasSample a ?fs'" using grouped_no_plan_zero [OF np z v] by simp_all
    have miss: "(\<not> hasMobile a fs \<and> (640, 360) \<notin> set (planned a fs))
                \<or> (\<not> hasSample a fs \<and> (569, 320) \<notin> set (planned a fs))"
    proof (rule ccontr)
      assume n: "\<not> ?thesis"
      have "\<not> shouldSkipVideo a fs 640 360" if "\<not> hasMobile a fs"
        using n that by (auto simp: planned_def split: if_splits)
      moreover have "\<not> shouldSkipVideo a fs 569 320" if "\<not> hasSample a fs"
        using n that by (auto simp: planned_def split: if_splits)
      ultimately have "0 \<le> groupedVideoCount a fs" using v
        by (auto simp: groupedVideoCount_def videoCount_def resolutions_def)
      then show False using neg by simp
    qed
    note t = negative_targets [OF c neg]
    from miss show False
    proof
      assume n: "\<not> hasMobile a fs \<and> (640, 360) \<notin> set (planned a fs)"
      have "mobilePath a \<notin> {mpdRoot a @ ''.audio.webm''} \<union> {samplePath a}"
        by (simp add: mobilePath_def samplePath_def)
      then have "mobilePath a \<notin> set (spawnTargets a fs)" using t n
        by (auto split: if_splits)
      then have "mobilePath a \<notin> ?fs'" using n
        by (simp add: afterSuccess_def hasMobile_def existsAsync_def)
      then show False using h'(1) by (simp add: hasMobile_def existsAsync_def)
    next
      assume n: "\<not> hasSample a fs \<and> (569, 320) \<notin> set (planned a fs)"
      have "samplePath a \<notin> {mpdRoot a @ ''.audio.webm''} \<union> {mobilePath a}"
        by (simp add: mobilePath_def samplePath_def)
      then have "samplePath a \<notin> set (spawnTargets a fs)" using t n
        by (auto split: if_splits)
      then have "samplePath a \<notin> ?fs'" using n
        by (simp add: afterSuccess_def hasSample_def existsAsync_def)
      then show False using h'(2) by (simp add: hasSample_def existsAsync_def)
    qed
  qed
  then have "p = mpdRoot a @ ''.audio.webm''" using p by (auto simp: audioPath_def split: if_splits)
  then show ?thesis using au by simp
qed

lemma second_run_spawns_nothing: "spawnTargets a (afterSuccess a fs) = []"
proof (cases "createStreamingPrefix a fs")
  case (Continues m sr)
  let ?fs' = "afterSuccess a fs"
  have np: "planned a ?fs' = []" using second_run_no_plan [OF Continues] .
  have q: "buildQueue a ?fs' (withAudio a ?fs') = []" using np by (simp add: buildQueue_def)
  have nm: "\<not> needsManifest a ?fs'" using grouped_no_plan [OF np] by (simp add: needsManifest_def)
  have au: "existsAsync ?fs' p" if "audioPath a ?fs' = Some p" for p
    using second_run_audio [OF Continues that] by (simp add: existsAsync_def)
  show ?thesis using q nm au
    by (auto simp: spawnTargets_def split: prefix.splits option.splits)
next
  case ReturnsFalse
  then show ?thesis by (simp add: afterSuccess_def spawnTargets_def)
next
  case (Throws e)
  then show ?thesis by (simp add: afterSuccess_def spawnTargets_def)
qed

lemma planned_all:
  assumes "planned a {} = resolutions" "\<not> hasDesktopVideo a fs" "\<not> hasMobile a fs" "\<not> hasSample a fs"
  shows "planned a fs = resolutions" "video a \<noteq> None"
proof -
  show v: "video a \<noteq> None" using assms(1) by (cases "video a") (auto simp: planned_def resolutions_def)
  have "filter (\<lambda>r. \<not> shouldSkipVideo a {} (fst r) (snd r)) resolutions = resolutions"
    using assms(1) v by (auto simp: planned_def)
  then have "\<forall>r \<in> set resolutions. \<not> shouldSkipVideo a {} (fst r) (snd r)"
    by (metis filter_id_conv)
  then have "\<forall>r \<in> set resolutions. \<not> shouldSkipVideo a fs (fst r) (snd r)"
    using assms(2,3,4) by (simp add: shouldSkipVideo_def)
  then show "planned a fs = resolutions" using v by (auto simp: planned_def)
qed

section \<open>The claims about the planning part\<close>

text \<open>
  Claim C6, as amended.  The asset is one for which all five renditions are due (none
  is skipped on an empty directory), and the run passes the first part of
  \<^verbatim>\<open>createStreaming\<close>.  The output directory holds the stream files of 1080p and
  720p, which the loop finds by \<^verbatim>\<open>existsAsync\<close> on the path of each stream; it
  holds neither the manifest nor the av file, and none of the 480p stream, the mobile
  video and the sample video.  Then the loop yields exactly the tasks 480p, 360p and
  320p, and the test for the manifest step is true: \<^verbatim>\<open>groupedVideoCount\<close> is 3, the
  three large renditions with those that exist already.
\<close>

theorem streams_present_plan:
  assumes c: "createStreamingPrefix a fs = Continues m sr"
      and p: "planned a {} = resolutions"
      and here: "mpdRoot a @ ''.v1080.webm'' \<in> fs" "mpdRoot a @ ''.v720.webm'' \<in> fs"
      and gone: "mpdPath a \<notin> fs" "avPath a \<notin> fs" "mpdRoot a @ ''.v480.webm'' \<notin> fs"
                "mobilePath a \<notin> fs" "samplePath a \<notin> fs"
  shows "map name (buildQueue a fs (withAudio a fs)) = [''480p'', ''360p'', ''320p'']
         \<and> needsManifest a fs \<and> groupedVideoCount a fs = 3"
proof -
  have h: "\<not> hasDesktopVideo a fs" "\<not> hasMobile a fs" "\<not> hasSample a fs"
    using gone by (simp_all add: hasDesktopVideo_def hasMobile_def hasSample_def existsAsync_def)
  note pl = planned_all [OF p h]
  have g: "groupedVideoCount a fs = 3"
    using pl h by (simp add: groupedVideoCount_def videoCount_planned resolutions_def)
  have vp: "videoPathOf a fs 1080 = mpdRoot a @ ''.v1080.webm''"
           "videoPathOf a fs 720 = mpdRoot a @ ''.v720.webm''"
           "videoPathOf a fs 480 = mpdRoot a @ ''.v480.webm''"
           "videoPathOf a fs 360 = mobilePath a" "videoPathOf a fs 320 = samplePath a"
    using g by (simp_all add: videoPathOf_def mobilePath_def samplePath_def)
  have w: "withAudio a fs \<subseteq> insert (mpdRoot a @ ''.audio.webm'') fs" "fs \<subseteq> withAudio a fs"
    using g by (auto simp: withAudio_def audioPath_def split: option.splits if_splits)
  have e: "existsAsync (withAudio a fs) (mpdRoot a @ ''.v1080.webm'')"
          "existsAsync (withAudio a fs) (mpdRoot a @ ''.v720.webm'')"
          "\<not> existsAsync (withAudio a fs) (mpdRoot a @ ''.v480.webm'')"
          "\<not> existsAsync (withAudio a fs) (mobilePath a)"
          "\<not> existsAsync (withAudio a fs) (samplePath a)"
    using w here gone by (auto simp: existsAsync_def mobilePath_def samplePath_def)
  have "map name (buildQueue a fs (withAudio a fs)) = [''480p'', ''360p'', ''320p'']"
    unfolding buildQueue_def pl(1) resolutions_def by (simp add: vp e)
  then show ?thesis using g by (simp add: needsManifest_def)
qed

theorem streams_present_plan_witness:
  "createStreamingPrefix exArgs exStreams = Continues False True
   \<and> planned exArgs {} = resolutions
   \<and> map name (buildQueue exArgs exStreams (withAudio exArgs exStreams)) = [''480p'', ''360p'', ''320p'']
   \<and> needsManifest exArgs exStreams \<and> groupedVideoCount exArgs exStreams = 3"
proof -
  have c: "createStreamingPrefix exArgs exStreams = Continues False True" by code_simp
  have p: "planned exArgs {} = resolutions" by code_simp
  have r: "mpdRoot exArgs = ''/s/M''" by (simp add: exArgs_def)
  have here: "mpdRoot exArgs @ ''.v1080.webm'' \<in> exStreams" "mpdRoot exArgs @ ''.v720.webm'' \<in> exStreams"
    by (simp_all add: r exStreams_def)
  have gone: "mpdPath exArgs \<notin> exStreams" "avPath exArgs \<notin> exStreams"
       "mpdRoot exArgs @ ''.v480.webm'' \<notin> exStreams"
       "mobilePath exArgs \<notin> exStreams" "samplePath exArgs \<notin> exStreams"
    by (simp_all add: r exStreams_def mpdPath_def avPath_def mobilePath_def samplePath_def)
  show ?thesis using streams_present_plan [OF c p here gone] c p by simp
qed

text \<open>
  Claim C6 as it is written fails when the desktop artifacts are found by the manifest
  (or the av file).  For a film of 1920 by 1080 whose directory holds the manifest and
  the three large streams, \<^verbatim>\<open>shouldSkipVideo\<close> skips every height from 480 up, so
  the tasks are 360p and 320p only, and \<^verbatim>\<open>groupedVideoCount\<close> is 0, so no manifest
  is due.
\<close>

theorem desktop_present_counterexample:
  "hasDesktopVideo exArgs exDesktop \<and> \<not> hasMobile exArgs exDesktop \<and> \<not> hasSample exArgs exDesktop
   \<and> createStreamingPrefix exArgs exDesktop = Continues False True
   \<and> map name (buildQueue exArgs exDesktop (withAudio exArgs exDesktop)) = [''360p'', ''320p'']
   \<and> \<not> needsManifest exArgs exDesktop"
  by code_simp

text \<open>
  Claim C7.  When the output directory holds the manifest or the av file, the mobile
  video and the sample video, \<^verbatim>\<open>createStreaming\<close> returns \<^verbatim>\<open>false\<close> in its first
  part and spawns nothing.  And after a run in which every spawned process has ended
  with success, a second run on the directory it leaves spawns nothing, whatever the
  arguments and the directory of the first run were.
\<close>

theorem complete_output_no_work:
  "(hasDesktopVideo a fs \<and> hasMobile a fs \<and> hasSample a fs \<longrightarrow>
      createStreamingPrefix a fs = ReturnsFalse \<and> spawnTargets a fs = [])
   \<and> spawnTargets a (afterSuccess a fs) = []"
  using second_run_spawns_nothing [of a fs]
  by (simp add: createStreamingPrefix_def spawnTargets_def)

theorem complete_output_no_work_witness:
  "hasDesktopVideo exArgs exComplete \<and> hasMobile exArgs exComplete \<and> hasSample exArgs exComplete
   \<and> createStreamingPrefix exArgs exComplete = ReturnsFalse \<and> spawnTargets exArgs exComplete = []
   \<and> spawnTargets exArgs {} =
        [''/s/M.audio.webm'', ''/s/M.v1080.webm'', ''/s/M.v720.webm'', ''/s/M.v480.webm'',
         ''/s/M.mobile.mp4'', ''/s/M.sample.mp4'', ''/s/M.mpd'']
   \<and> spawnTargets exArgs (afterSuccess exArgs {}) = []"
proof -
  have h: "hasDesktopVideo exArgs exComplete \<and> hasMobile exArgs exComplete \<and> hasSample exArgs exComplete"
    by code_simp
  have t: "spawnTargets exArgs {} =
        [''/s/M.audio.webm'', ''/s/M.v1080.webm'', ''/s/M.v720.webm'', ''/s/M.v480.webm'',
         ''/s/M.mobile.mp4'', ''/s/M.sample.mp4'', ''/s/M.mpd'']"
    by code_simp
  show ?thesis
    using h t complete_output_no_work [of exArgs exComplete] complete_output_no_work [of exArgs "{}"]
    by simp
qed

text \<open>
  Claim C10.  With an empty list of audio tracks, a call that passes the early checks
  (height not above 1100, not stereoscopic, no busy marker, artifacts not all present)
  throws a \<^verbatim>\<open>TypeError\<close> at \<^verbatim>\<open>audio.properties.audio_channels\<close>, in the first part
  of \<^verbatim>\<open>createStreaming\<close>: no task has been built and nothing is spawned.
\<close>

theorem no_audio_throws:
  assumes "audios a = []" "\<not> snd (pixels a) > 1100" "\<not> stereoscopic a"
      "\<not> existsAsync fs (busyPath a)"
      "\<not> (hasDesktopVideo a fs \<and> hasMobile a fs \<and> hasSample a fs)"
  shows "createStreamingPrefix a fs = Throws TypeError \<and> spawnTargets a fs = []"
  using assms by (auto simp: createStreamingPrefix_def spawnTargets_def primaryAudio_def)

theorem no_audio_throws_witness:
  "audios (exArgs\<lparr>audios := []\<rparr>) = [] \<and> \<not> snd (pixels (exArgs\<lparr>audios := []\<rparr>)) > 1100
   \<and> \<not> stereoscopic (exArgs\<lparr>audios := []\<rparr>) \<and> \<not> existsAsync {} (busyPath (exArgs\<lparr>audios := []\<rparr>))
   \<and> \<not> (hasDesktopVideo (exArgs\<lparr>audios := []\<rparr>) {} \<and> hasMobile (exArgs\<lparr>audios := []\<rparr>) {}
          \<and> hasSample (exArgs\<lparr>audios := []\<rparr>) {})
   \<and> createStreamingPrefix (exArgs\<lparr>audios := []\<rparr>) {} = Throws TypeError
   \<and> spawnTargets (exArgs\<lparr>audios := []\<rparr>) {} = []"
proof -
  have h: "audios (exArgs\<lparr>audios := []\<rparr>) = []" "\<not> snd (pixels (exArgs\<lparr>audios := []\<rparr>)) > 1100"
    "\<not> stereoscopic (exArgs\<lparr>audios := []\<rparr>)" "\<not> existsAsync {} (busyPath (exArgs\<lparr>audios := []\<rparr>))"
    "\<not> (hasDesktopVideo (exArgs\<lparr>audios := []\<rparr>) {} \<and> hasMobile (exArgs\<lparr>audios := []\<rparr>) {}
          \<and> hasSample (exArgs\<lparr>audios := []\<rparr>) {})"
    by (simp_all add: exArgs_def pixels_def stereoscopic_def existsAsync_def hasDesktopVideo_def)
  show ?thesis using h no_audio_throws [OF h] by simp
qed

section \<open>Properties of the manifest step\<close>

lemma no_lt_lazyClose: "CHR ''<'' \<notin> set s \<Longrightarrow> lazyClose s = None"
  by (induction s) (auto simp: closeTag_def)

lemma no_lt_greedyPath: "CHR ''<'' \<notin> set s \<Longrightarrow> greedyPath s = None"
  by (induction s) (auto simp: no_lt_lazyClose)

lemma lazyClose_base:
  assumes "\<not> (\<exists>c \<in> set base. isTerm c)" "\<not> (\<exists>c \<in> set base. isSep c)"
  shows "lazyClose (base @ closeTag @ tail) = Some (base, tail)"
  using assms
proof (induction base)
  case Nil
  then show ?case by (simp add: closeTag_def)
next
  case (Cons b bs)
  have "\<not> prefix closeTag (b # bs @ closeTag @ tail)"
    using Cons.prems(2) by (cases bs) (auto simp: closeTag_def isSep_def)
  then show ?case using Cons by simp
qed

lemma greedyPath_closeTag:
  assumes "CHR ''<'' \<notin> set tail"
  shows "greedyPath (closeTag @ tail) = None"
proof -
  have a: "greedyPath tail = None" using assms by (rule no_lt_greedyPath)
  have b: "lazyClose (''BaseURL>'' @ tail) = None" using assms by (intro no_lt_lazyClose) simp
  show ?thesis using a b by (simp add: closeTag_def isSep_def isTerm_def)
qed

lemma greedyPath_base:
  assumes "\<not> (\<exists>c \<in> set base. isSep c)" "CHR ''<'' \<notin> set tail"
  shows "greedyPath (base @ closeTag @ tail) = None"
  using assms
proof (induction base)
  case Nil
  then show ?case using greedyPath_closeTag by simp
next
  case (Cons b bs)
  then show ?case by simp
qed

lemma greedyPath_value:
  assumes "isSep sep" "\<not> (\<exists>c \<in> set (dir @ base). isTerm c)" "\<not> (\<exists>c \<in> set base. isSep c)"
      "CHR ''<'' \<notin> set tail"
  shows "greedyPath (dir @ sep # base @ closeTag @ tail) = Some (base, tail)"
  using assms
proof (induction dir)
  case Nil
  have "greedyPath (base @ closeTag @ tail) = None" using greedyPath_base Nil by simp
  moreover have "lazyClose (base @ closeTag @ tail) = Some (base, tail)" using lazyClose_base Nil by simp
  ultimately show ?case using Nil by simp
next
  case (Cons d ds)
  then show ?case by simp
qed

lemma fixManifest_no_lt: "CHR ''<'' \<notin> set s \<Longrightarrow> fixManifest esc s = s"
  by (induction s) (auto simp: fixManifest.simps openTag_def)

lemma fixManifest_indent:
  "CHR ''<'' \<notin> set ind \<Longrightarrow> fixManifest esc (ind @ s) = ind @ fixManifest esc s"
  by (induction ind) (auto simp: fixManifest.simps openTag_def)

lemma fixManifest_element:
  assumes "CHR ''<'' \<notin> set ind" "isSep sep" "\<not> (\<exists>c \<in> set (dir @ base). isTerm c)"
      "\<not> (\<exists>c \<in> set base. isSep c)" "CHR ''<'' \<notin> set tail"
  shows "fixManifest esc (ind @ openTag @ dir @ sep # base @ closeTag @ tail)
         = ind @ openTag @ fixReference esc base @ closeTag @ tail"
proof -
  have g: "greedyPath (dir @ sep # base @ closeTag @ tail) = Some (base, tail)"
    using greedyPath_value [OF assms(2,3,4,5)] .
  have "fixManifest esc (openTag @ dir @ sep # base @ closeTag @ tail)
        = openTag @ fixReference esc base @ closeTag @ fixManifest esc tail"
    using g by (simp add: openTag_def fixManifest.simps)
  then show ?thesis using fixManifest_indent [OF assms(1)] fixManifest_no_lt [OF assms(5)] by simp
qed

lemma prefix_lit_term:
  "\<not> (\<exists>c \<in> set lit. isTerm c) \<Longrightarrow> isTerm t \<Longrightarrow> prefix lit (u @ t # ys) = prefix lit u"
proof (induction lit arbitrary: u)
  case Nil
  then show ?case by simp
next
  case (Cons a lit)
  then show ?case by (cases u) auto
qed

lemma openTag_no_term: "\<not> (\<exists>c \<in> set openTag. isTerm c)"
  by (simp add: openTag_def isTerm_def)

lemma closeTag_no_term: "\<not> (\<exists>c \<in> set closeTag. isTerm c)"
  by (simp add: closeTag_def isTerm_def)

lemma lazyClose_term:
  assumes "isTerm t"
  shows "lazyClose (u @ t # ys) = map_option (\<lambda>(g, r). (g, r @ t # ys)) (lazyClose u)"
proof (induction u)
  case Nil
  have "\<not> prefix closeTag (t # ys)" using assms by (auto simp: closeTag_def isTerm_def)
  then show ?case using assms by simp
next
  case (Cons c cs)
  have p: "prefix closeTag (c # cs @ t # ys) = prefix closeTag (c # cs)"
    using prefix_lit_term [OF closeTag_no_term assms, of "c # cs" ys] by simp
  show ?case
  proof (cases "prefix closeTag (c # cs)")
    case True
    then have "length closeTag \<le> length (c # cs)" by (rule prefix_length_le)
    then have "drop (length closeTag) (c # cs @ t # ys) = drop (length closeTag) (c # cs) @ t # ys"
      using drop_append [of "length closeTag" "c # cs" "t # ys"] by simp
    then show ?thesis using True p by simp
  next
    case False
    then show ?thesis using p Cons by (auto split: option.splits)
  qed
qed

lemma greedyPath_term:
  assumes "isTerm t"
  shows "greedyPath (u @ t # ys) = map_option (\<lambda>(g, r). (g, r @ t # ys)) (greedyPath u)"
proof (induction u)
  case Nil
  have "\<not> isSep t" using assms by (auto simp: isSep_def isTerm_def)
  then show ?case using assms by simp
next
  case (Cons c cs)
  then show ?case using lazyClose_term [OF assms, of cs ys]
    by (auto split: option.splits)
qed

lemma fixManifest_term:
  assumes "isTerm t"
  shows "fixManifest esc (xs @ t # ys) = fixManifest esc xs @ t # fixManifest esc ys"
proof (induction esc xs rule: fixManifest.induct)
  case (1 esc)
  have "\<not> prefix openTag (t # ys)" using assms by (auto simp: openTag_def isTerm_def)
  then show ?case by (simp add: fixManifest.simps)
next
  case (2 esc c cs)
  have p: "prefix openTag (c # cs @ t # ys) = prefix openTag (c # cs)"
    using prefix_lit_term [OF openTag_no_term assms, of "c # cs" ys] by simp
  show ?case
  proof (cases "prefix openTag (c # cs)")
    case True
    then have "length openTag \<le> length (c # cs)" by (rule prefix_length_le)
    then have d: "drop (length openTag) (c # cs @ t # ys) = drop (length openTag) (c # cs) @ t # ys"
      using drop_append [of "length openTag" "c # cs" "t # ys"] by simp
    note g = greedyPath_term [OF assms, of "drop (length openTag) (c # cs)" ys]
    show ?thesis
    proof (cases "greedyPath (drop (length openTag) (c # cs))")
      case None
      have "fixManifest esc (c # cs @ t # ys) = c # fixManifest esc (cs @ t # ys)"
        using True p None g d by (simp add: fixManifest.simps(2) [of esc c "cs @ t # ys"])
      moreover have "fixManifest esc (c # cs) = c # fixManifest esc cs"
        using True None by (simp add: fixManifest.simps(2) [of esc c cs])
      ultimately show ?thesis using "2.IH"(1) [OF True None] by simp
    next
      case (Some m)
      obtain gg rest where m: "m = (gg, rest)" by (cases m)
      have "fixManifest esc (c # cs @ t # ys)
            = openTag @ fixReference esc gg @ closeTag @ fixManifest esc (rest @ t # ys)"
        using True p Some m g d by (simp add: fixManifest.simps(2) [of esc c "cs @ t # ys"])
      moreover have "fixManifest esc (c # cs) = openTag @ fixReference esc gg @ closeTag @ fixManifest esc rest"
        using True Some m by (simp add: fixManifest.simps(2) [of esc c cs])
      ultimately show ?thesis using "2.IH"(2) [OF True Some m [symmetric]] by simp
    qed
  next
    case False
    have "fixManifest esc (c # cs @ t # ys) = c # fixManifest esc (cs @ t # ys)"
      using False p by (simp add: fixManifest.simps(2) [of esc c "cs @ t # ys"])
    moreover have "fixManifest esc (c # cs) = c # fixManifest esc cs"
      using False by (simp add: fixManifest.simps(2) [of esc c cs])
    ultimately show ?thesis using "2.IH"(3) [OF False] by simp
  qed
qed

lemma fixManifest_no_tag: "\<not> occurs openTag s \<Longrightarrow> fixManifest esc s = s"
  by (induction s) (auto simp: fixManifest.simps)

lemma fixManifest_line: "wellFormed l \<Longrightarrow> fixManifest esc (render l) = rewritten esc l"
proof (cases l)
  case (Other s)
  assume "wellFormed l"
  then show ?thesis using Other by (simp add: fixManifest_no_tag)
next
  case (BaseURL ind dir sep base)
  assume "wellFormed l"
  then show ?thesis using BaseURL fixManifest_element [of ind sep dir base "[]" esc]
    by (simp add: fixReference_def needsEscape_def)
qed

lemma isWord_mpd: "\<not> isWord (CHR ''.'')" "list_all isWord ''mpd''"
  by (simp_all add: isWord_def isDigit_def)

lemma tmp_mpd: "tmp (r @ ''.mpd'') = r @ ''.tmp.mpd''"
proof (induction r)
  case Nil
  show ?case using isWord_mpd by simp
next
  case (Cons c r)
  have "\<not> list_all isWord (r @ ''.mpd'')" using isWord_mpd(1) by simp
  then show ?case using Cons by (simp del: list_all_append)
qed

lemma tmp_mpdPath: "tmp (mpdPath a) \<noteq> mpdPath a"
  by (simp add: mpdPath_def tmp_mpd)

text \<open>
  The trees of a manifest step that succeeds, seen at the temporary and at the final
  name: between \<^verbatim>\<open>rename\<close> and \<^verbatim>\<open>writeFile\<close> the final name holds what ffmpeg has
  written.
\<close>

lemma manifest_trace:
  "map (\<lambda>d'. (d' (tmp (mpdPath a)), d' (mpdPath a))) (fst (manifestStep esc a (Inr raw) d))
     = [(Some raw, d (mpdPath a)), (None, Some raw), (None, Some (fixManifest esc raw))]
   \<and> snd (manifestStep esc a (Inr raw) d) = None
   \<and> tmp (mpdPath a) = mpdRoot a @ ''.tmp.mpd''"
  using tmp_mpdPath [of a] by (simp add: manifestStep_def Let_def mpdPath_def tmp_mpd)

section \<open>The claims about the manifest step\<close>

text \<open>
  Claim C3 at a manifest step that succeeds.  ffmpeg writes the manifest to the
  temporary name with the path of a stream in its \<^verbatim>\<open>BaseURL\<close>.  The step renames
  the file to its final name first and rewrites it there afterwards: in the tree after
  \<^verbatim>\<open>rename\<close> the final name holds the manifest as ffmpeg wrote it, which differs
  from the rewritten one, and only the last operation, \<^verbatim>\<open>writeFile\<close> on the final
  name, brings the rewritten text.
\<close>

theorem manifest_raw_under_final_name:
  "map (\<lambda>d'. (d' ''/s/M.tmp.mpd'', d' ''/s/M.mpd''))
     (fst (manifestStep plainEscape exArgs (Inr exRaw) Map.empty))
     = [(Some ''<BaseURL>/s/M.v480.webm</BaseURL>'', None),
        (None, Some ''<BaseURL>/s/M.v480.webm</BaseURL>''),
        (None, Some ''<BaseURL>M.v480.webm</BaseURL>'')]
   \<and> snd (manifestStep plainEscape exArgs (Inr exRaw) Map.empty) = None"
proof -
  have f: "fixManifest plainEscape ''<BaseURL>/s/M.v480.webm</BaseURL>'' = ''<BaseURL>M.v480.webm</BaseURL>''"
    by code_simp
  have p: "mpdPath exArgs = ''/s/M.mpd''" "mpdRoot exArgs = ''/s/M''"
    by (simp_all add: mpdPath_def exArgs_def)
  note th = manifest_trace [of exArgs plainEscape exRaw Map.empty]
  have t: "tmp (mpdPath exArgs) = ''/s/M.tmp.mpd''"
    using conjunct2 [OF conjunct2 [OF th]] by (simp only: p append.simps)
  have "map (\<lambda>d'. (d' ''/s/M.tmp.mpd'', d' (mpdPath exArgs)))
          (fst (manifestStep plainEscape exArgs (Inr exRaw) Map.empty))
        = [(Some exRaw, Map.empty (mpdPath exArgs)), (None, Some exRaw),
           (None, Some (fixManifest plainEscape exRaw))]"
    using conjunct1 [OF th] by (simp only: t)
  then have "map (\<lambda>d'. (d' ''/s/M.tmp.mpd'', d' ''/s/M.mpd''))
          (fst (manifestStep plainEscape exArgs (Inr exRaw) Map.empty))
        = [(Some ''<BaseURL>/s/M.v480.webm</BaseURL>'', None),
           (None, Some ''<BaseURL>/s/M.v480.webm</BaseURL>''),
           (None, Some ''<BaseURL>M.v480.webm</BaseURL>'')]"
    by (simp only: p(1) exRaw_def f)
  then show ?thesis using conjunct1 [OF conjunct2 [OF th]] by (rule conjI)
qed

text \<open>
  Claim C8, as amended.  The manifest is a list of lines, each ended by a line feed.
  A line is an element \<^verbatim>\<open>BaseURL\<close> alone on its line (after an indentation without
  \<^verbatim>\<open><\<close>) whose value holds a separator \<^verbatim>\<open>/\<close> or \<^verbatim>\<open>\\<close>, or it is a line without
  the opening tag.  Then the rewriting leaves the other lines as they are, and in each
  element it replaces the value by what follows the last separator, the base name;
  the base name is passed through \<^verbatim>\<open>htmlEscape\<close> when it contains one of
  \<^verbatim>\<open>&\<close>, \<^verbatim>\<open><\<close>, \<^verbatim>\<open>>\<close> and nothing in it has the form of an entity
  (\<^verbatim>\<open>&[#a-z0-9]+;\<close>), and is taken as it is otherwise.
\<close>

theorem base_url_rewritten:
  "list_all wellFormed ls \<Longrightarrow>
   fixManifest esc (joinLines (map render ls)) = joinLines (map (rewritten esc) ls)"
proof (induction ls)
  case Nil
  then show ?case by (simp add: joinLines_def fixManifest.simps)
next
  case (Cons l ls)
  have t: "isTerm (CHR 0x0A)" by (simp add: isTerm_def)
  have "fixManifest esc (render l @ CHR 0x0A # joinLines (map render ls))
        = fixManifest esc (render l) @ CHR 0x0A # fixManifest esc (joinLines (map render ls))"
    using fixManifest_term [OF t] .
  then show ?case using Cons fixManifest_line [of l esc] by (simp add: joinLines_def)
qed

theorem base_url_rewritten_witness:
  "list_all wellFormed exManifest
   \<and> fixManifest plainEscape (joinLines (map render exManifest))
       = joinLines [''<Representation id=\"0\">'',
                    ''  <BaseURL>Tom &amp; Jerry.v480.webm</BaseURL>'',
                    ''</Representation>'',
                    ''  <BaseURL>Tom &amp; Jerry.audio.webm</BaseURL>'']"
proof -
  have w: "list_all wellFormed exManifest" by code_simp
  have r: "map (rewritten plainEscape) exManifest
           = [''<Representation id=\"0\">'',
              ''  <BaseURL>Tom &amp; Jerry.v480.webm</BaseURL>'',
              ''</Representation>'',
              ''  <BaseURL>Tom &amp; Jerry.audio.webm</BaseURL>'']" by code_simp
  show ?thesis using w base_url_rewritten [OF w, of plainEscape] by (simp only: r simp_thms)
qed

text \<open>
  Claim C8 as it is written fails in three ways.  A value without a separator is not
  matched by the pattern, so its \<^verbatim>\<open>&\<close> is not escaped.  A value in which something
  has the form of an entity is not escaped, although another \<^verbatim>\<open>&\<close> of it is no
  entity.  And of two elements on one line the greedy \<^verbatim>\<open>.*\<close> takes the first with
  its closing tag into the directory part, so one element with the second base name
  is left.
\<close>

theorem base_url_counterexample:
  "fixManifest plainEscape ''<BaseURL>Tom & Jerry.webm</BaseURL>'' = ''<BaseURL>Tom & Jerry.webm</BaseURL>''
   \<and> fixManifest plainEscape ''<BaseURL>/s/Q&a; R&D.webm</BaseURL>'' = ''<BaseURL>Q&a; R&D.webm</BaseURL>''
   \<and> fixManifest plainEscape ''<BaseURL>/s/a.webm</BaseURL><BaseURL>/s/b.webm</BaseURL>''
       = ''<BaseURL>b.webm</BaseURL>''"
  by code_simp

section \<open>The claim about the progress aggregator\<close>








end
